theory Spec2Isabelle
  imports Main "HOL-Library.Word"
begin

unbundle bit_operations_syntax

section \<open>The advanced multi-strategy codec of compress.c\<close>

text \<open>
  A shallow embedding of \<^verbatim>\<open>advanced_compress\<close> and \<^verbatim>\<open>advanced_decompress\<close>
  and of the evaluators they call (\<^verbatim>\<open>find_pattern\<close>, \<^verbatim>\<open>is_delta_sequence\<close>,
  \<^verbatim>\<open>can_nibble_pack\<close>).

  \<^item> A byte (\<^verbatim>\<open>uint8_t\<close>) is an \<open>8 word\<close>; a buffer of \<^verbatim>\<open>data_size\<close> bytes is a
    list, \<^verbatim>\<open>data_size\<close> its length.
  \<^item> Positions, counts and lengths (\<^verbatim>\<open>size_t\<close>) are natural numbers. The one place
    where the C code's unsigned arithmetic wraps around, the scores \<^verbatim>\<open>saved\<close> and
    \<^verbatim>\<open>best_saved\<close> of \<^verbatim>\<open>find_pattern\<close>, is computed on \<open>64 word\<close>
    (a 64-bit \<^verbatim>\<open>size_t\<close>).
  \<^item> \<^verbatim>\<open>int\<close> values (\<^verbatim>\<open>delta\<close>, \<^verbatim>\<open>expected\<close>) are integers; \<open>AND\<close> on
    \<open>int\<close> is two's complement, as \<^verbatim>\<open>&\<close> is in C.
  \<^item> Every inner loop is a recursive function on the loop variables. The main loop of
    the encoder, whose cursor advances by a computed amount, is a
    \<^theory_text>\<open>partial_function\<close> in the option monad: that it returns is a theorem.
  \<^item> Both functions are modelled for a non-null buffer and a successful \<^verbatim>\<open>malloc\<close>.
\<close>

type_synonym u8 = "8 word"

subsection \<open>Format constants\<close>

definition MODE_RLE :: u8 where "MODE_RLE = 0x80"
definition MODE_DELTA :: u8 where "MODE_DELTA = 0xC0"
definition MODE_NIBBLE :: u8 where "MODE_NIBBLE = 0x40"
definition MODE_LITERAL :: u8 where "MODE_LITERAL = 0x00"
definition MODE_MASK :: u8 where "MODE_MASK = 0xC0"
definition LENGTH_MASK :: u8 where "LENGTH_MASK = 0x3F"

definition EXT_PATTERN :: u8 where "EXT_PATTERN = 0xE0"
definition EXT_ZERO_RUN :: u8 where "EXT_ZERO_RUN = 0xF0"
definition EXT_INCR_SEQ :: u8 where "EXT_INCR_SEQ = 0xF1"
definition EXT_COMMON_VAL :: u8 where "EXT_COMMON_VAL = 0xF2"

definition common_values :: "u8 list" where
  "common_values = [0x00, 0x01, 0x02, 0x03, 0x04, 0xFF, 0x7F, 0x20]"

definition NUM_COMMON_VALUES :: nat where "NUM_COMMON_VALUES = 8"

subsection \<open>find\_pattern\<close>

text \<open>The struct \<^verbatim>\<open>Pattern\<close>: a 16-byte array, a unit length and a repeat count.\<close>

record Pattern =
  pattern :: "u8 list"
  plength :: nat
  pcount :: nat

text \<open>
  The inner loop of \<^verbatim>\<open>find_pattern\<close>: \<^verbatim>\<open>i\<close> runs in steps of
  \<^verbatim>\<open>pattern_len\<close> while the unit at \<^verbatim>\<open>i\<close> equals the unit at
  \<^verbatim>\<open>start\<close> (\<^verbatim>\<open>memcmp\<close>). The caller passes unit lengths from 2 to 16 only;
  the guard \<open>0 < pattern_len\<close> makes the recursion total for the others.
\<close>

function match_loop :: "u8 list \<Rightarrow> nat \<Rightarrow> nat \<Rightarrow> nat \<Rightarrow> nat \<Rightarrow> nat" where
  "match_loop data start pattern_len i matches =
     (if 0 < pattern_len \<and> i + pattern_len \<le> length data then
        (if take pattern_len (drop start data) = take pattern_len (drop i data)
         then match_loop data start pattern_len (i + pattern_len) (matches + 1)
         else matches)
      else matches)"
  by pat_completeness auto
termination
  by (relation "measure (\<lambda>(data, start, pattern_len, i, matches). Suc (length data) - i)") auto

declare match_loop.simps [simp del]

text \<open>
  The scores are \<^verbatim>\<open>size_t\<close>: the subtraction wraps around. For the initial
  \<^verbatim>\<open>best = {0}\<close> the score \<^verbatim>\<open>best_saved\<close> is \<open>0 - 2\<close>, the second largest
  \<^verbatim>\<open>size_t\<close>.
\<close>

definition saved_score :: "nat \<Rightarrow> nat \<Rightarrow> 64 word" where
  "saved_score cnt len = word_of_nat (cnt * len) - word_of_nat (2 + len)"

text \<open>The body of \<^verbatim>\<open>if (matches >= 2)\<close>: the candidate replaces \<^verbatim>\<open>best\<close> when it saves more.\<close>

definition better_pattern :: "u8 list \<Rightarrow> nat \<Rightarrow> nat \<Rightarrow> nat \<Rightarrow> Pattern \<Rightarrow> Pattern" where
  "better_pattern data start pattern_len matches best =
     (if matches \<ge> 2 then
        (let saved = saved_score matches pattern_len;
             best_saved = saved_score (pcount best) (plength best)
         in if saved > best_saved
            then \<lparr>pattern = take pattern_len (drop start data) @ drop pattern_len (pattern best),
                  plength = pattern_len, pcount = matches\<rparr>
            else best)
      else best)"

function find_pattern_loop :: "u8 list \<Rightarrow> nat \<Rightarrow> nat \<Rightarrow> Pattern \<Rightarrow> Pattern" where
  "find_pattern_loop data start pattern_len best =
     (if pattern_len \<le> 16 \<and> start + pattern_len * 2 \<le> length data then
        find_pattern_loop data start (pattern_len + 1)
          (better_pattern data start pattern_len
             (match_loop data start pattern_len (start + pattern_len) 1) best)
      else best)"
  by pat_completeness auto
termination
  by (relation "measure (\<lambda>(data, start, pattern_len, best). 17 - pattern_len)") auto

declare find_pattern_loop.simps [simp del]

definition find_pattern :: "u8 list \<Rightarrow> nat \<Rightarrow> Pattern" where
  "find_pattern data start =
     find_pattern_loop data start 2 \<lparr>pattern = replicate 16 0, plength = 0, pcount = 0\<rparr>"

subsection \<open>is\_delta\_sequence\<close>

function delta_loop :: "u8 list \<Rightarrow> int \<Rightarrow> nat \<Rightarrow> nat \<Rightarrow> nat" where
  "delta_loop data delta i len =
     (if i < length data \<and> len < 63 then
        (let expected = (uint (data ! (i - 1)) + delta) AND 0x7F in
         if uint (data ! i) \<noteq> expected then len
         else delta_loop data delta (i + 1) (len + 1))
      else len)"
  by pat_completeness auto
termination
  by (relation "measure (\<lambda>(data, delta, i, len). length data - i)") auto

declare delta_loop.simps [simp del]

text \<open>
  The C function returns a flag and writes \<^verbatim>\<open>*delta\<close> and \<^verbatim>\<open>*length\<close>; its
  callers read them only when the flag is true. The model returns \<open>Some (delta, length)\<close>
  for true and \<open>None\<close> for false.
\<close>

definition is_delta_sequence :: "u8 list \<Rightarrow> nat \<Rightarrow> (int \<times> nat) option" where
  "is_delta_sequence data start =
     (if start + 2 > length data then None
      else
        (let delta = uint (data ! (start + 1)) - uint (data ! start);
             len = delta_loop data delta (start + 2) 2
         in if len \<ge> 3 \<and> (delta \<ge> -15 \<and> delta \<le> 15) then Some (delta, len) else None))"

subsection \<open>can\_nibble\_pack\<close>

function nibble_loop :: "u8 list \<Rightarrow> nat \<Rightarrow> nat \<Rightarrow> nat \<Rightarrow> nat" where
  "nibble_loop data start i len =
     (if i < length data \<and> i < start + 62 then
        (if data ! i \<ge> 16 then len else nibble_loop data start (i + 1) (len + 1))
      else len)"
  by pat_completeness auto
termination
  by (relation "measure (\<lambda>(data, start, i, len). length data - i)") auto

declare nibble_loop.simps [simp del]

definition can_nibble_pack :: "u8 list \<Rightarrow> nat \<Rightarrow> nat option" where
  "can_nibble_pack data start =
     (let len = nibble_loop data start start 0 in if len \<ge> 4 then Some len else None)"

subsection \<open>advanced\_compress\<close>

text \<open>
  One iteration of the main loop writes one token. The token records which branch wrote
  it and the values of the locals the branch writes from; \<open>emit\<close> is the bytes the branch
  stores into \<^verbatim>\<open>output\<close>, \<open>coverage\<close> the amount it adds to \<^verbatim>\<open>in_pos\<close>.
\<close>

datatype token =
    TZeroRun nat                \<comment> \<open>\<^verbatim>\<open>zero_count\<close>\<close>
  | TDelta u8 int nat           \<comment> \<open>\<^verbatim>\<open>data_ptr[in_pos]\<close>, \<^verbatim>\<open>delta\<close>, \<^verbatim>\<open>delta_length\<close>\<close>
  | TNibble nat "u8 list"       \<comment> \<open>\<^verbatim>\<open>nibble_length\<close>, the packed bytes\<close>
  | TPattern Pattern            \<comment> \<open>\<^verbatim>\<open>pattern\<close>\<close>
  | TCommonRun nat nat          \<comment> \<open>\<^verbatim>\<open>run_length\<close>, \<^verbatim>\<open>common_idx\<close>\<close>
  | TRun nat u8                 \<comment> \<open>\<^verbatim>\<open>run_length\<close>, \<^verbatim>\<open>current\<close>\<close>
  | TLiteral nat "u8 list"      \<comment> \<open>\<^verbatim>\<open>literal_count\<close>, the bytes copied by \<^verbatim>\<open>memcpy\<close>\<close>

fun emit :: "token \<Rightarrow> u8 list" where
  "emit (TZeroRun zero_count) = [EXT_ZERO_RUN, word_of_nat zero_count]"
| "emit (TDelta start delta delta_length) =
     [MODE_DELTA OR word_of_nat delta_length, start, word_of_int (delta + 16)]"
| "emit (TNibble nibble_length packed) = (MODE_NIBBLE OR word_of_nat nibble_length) # packed"
| "emit (TPattern p) =
     [EXT_PATTERN, word_of_nat (push_bit 4 (plength p) OR (pcount p AND 0x0F))]
       @ take (plength p) (pattern p)"
| "emit (TCommonRun run_length common_idx) =
     [EXT_COMMON_VAL, word_of_nat (push_bit 4 run_length OR common_idx)]"
| "emit (TRun run_length current) = [MODE_RLE OR word_of_nat run_length, current]"
| "emit (TLiteral literal_count bytes) = (MODE_LITERAL OR word_of_nat literal_count) # bytes"

fun coverage :: "token \<Rightarrow> nat" where
  "coverage (TZeroRun zero_count) = zero_count"
| "coverage (TDelta start delta delta_length) = delta_length"
| "coverage (TNibble nibble_length packed) = nibble_length"
| "coverage (TPattern p) = plength p * pcount p"
| "coverage (TCommonRun run_length common_idx) = run_length"
| "coverage (TRun run_length current) = run_length"
| "coverage (TLiteral literal_count bytes) = literal_count"

function zero_loop :: "u8 list \<Rightarrow> nat \<Rightarrow> nat \<Rightarrow> nat" where
  "zero_loop data_ptr in_pos zero_count =
     (if in_pos + zero_count < length data_ptr \<and> data_ptr ! (in_pos + zero_count) = 0x00
         \<and> zero_count < 255
      then zero_loop data_ptr in_pos (zero_count + 1)
      else zero_count)"
  by pat_completeness auto
termination
  by (relation "measure (\<lambda>(data_ptr, in_pos, zero_count). 255 - zero_count)") auto

declare zero_loop.simps [simp del]

text \<open>The packed bytes of the nibble branch: the pairs, then the odd last value.\<close>

definition nibble_pack :: "u8 list \<Rightarrow> nat \<Rightarrow> nat \<Rightarrow> u8 list" where
  "nibble_pack data_ptr in_pos nibble_length =
     (let pairs = nibble_length div 2 in
      map (\<lambda>i. push_bit 4 (data_ptr ! (in_pos + i * 2)) OR data_ptr ! (in_pos + i * 2 + 1))
          [0..<pairs]
      @ (if nibble_length mod 2 \<noteq> 0
         then [push_bit 4 (data_ptr ! (in_pos + nibble_length - 1))] else []))"

function run_loop :: "u8 list \<Rightarrow> nat \<Rightarrow> u8 \<Rightarrow> nat \<Rightarrow> nat" where
  "run_loop data_ptr in_pos current run_length =
     (if in_pos + run_length < length data_ptr \<and> data_ptr ! (in_pos + run_length) = current
         \<and> run_length < 63
      then run_loop data_ptr in_pos current (run_length + 1)
      else run_length)"
  by pat_completeness auto
termination
  by (relation "measure (\<lambda>(data_ptr, in_pos, current, run_length). 63 - run_length)") auto

declare run_loop.simps [simp del]

text \<open>The search of the palette: \<open>None\<close> is \<^verbatim>\<open>common_idx == -1\<close>.\<close>

function common_idx_loop :: "u8 \<Rightarrow> nat \<Rightarrow> nat option" where
  "common_idx_loop current i =
     (if i < NUM_COMMON_VALUES then
        (if common_values ! i = current then Some i else common_idx_loop current (i + 1))
      else None)"
  by pat_completeness auto
termination
  by (relation "measure (\<lambda>(current, i). NUM_COMMON_VALUES - i)") auto

declare common_idx_loop.simps [simp del]

function ahead_loop :: "u8 list \<Rightarrow> nat \<Rightarrow> nat \<Rightarrow> nat" where
  "ahead_loop data_ptr in_pos ahead_run =
     (if in_pos + ahead_run < length data_ptr
         \<and> data_ptr ! (in_pos + ahead_run) = data_ptr ! in_pos
      then ahead_loop data_ptr in_pos (ahead_run + 1)
      else ahead_run)"
  by pat_completeness auto
termination
  by (relation "measure (\<lambda>(data_ptr, in_pos, ahead_run). length data_ptr - (in_pos + ahead_run))") auto

declare ahead_loop.simps [simp del]

text \<open>The literal loop; it returns the final \<^verbatim>\<open>literal_count\<close>.\<close>

function literal_loop :: "u8 list \<Rightarrow> nat \<Rightarrow> nat \<Rightarrow> nat" where
  "literal_loop data_ptr in_pos literal_count =
     (if in_pos < length data_ptr \<and> literal_count < 63 then
        (let ahead_run = (if in_pos + 1 < length data_ptr then ahead_loop data_ptr in_pos 1 else 1)
         in if ahead_run \<ge> 3 then literal_count
            else if is_delta_sequence data_ptr in_pos \<noteq> None then literal_count
            else literal_loop data_ptr (in_pos + 1) (literal_count + 1))
      else literal_count)"
  by pat_completeness auto
termination
  by (relation "measure (\<lambda>(data_ptr, in_pos, literal_count). length data_ptr - in_pos)") auto

declare literal_loop.simps [simp del]

text \<open>The body of the main loop at \<^verbatim>\<open>in_pos < data_size\<close>, in the order of the source.\<close>

definition encode_step :: "u8 list \<Rightarrow> nat \<Rightarrow> token" where
  "encode_step data_ptr in_pos =
     (let current = data_ptr ! in_pos in
      if current = 0x00 \<and> zero_loop data_ptr in_pos 1 \<ge> 3
      then TZeroRun (zero_loop data_ptr in_pos 1)
      else
        (case is_delta_sequence data_ptr in_pos of
           Some (delta, delta_length) \<Rightarrow> TDelta (data_ptr ! in_pos) delta delta_length
         | None \<Rightarrow>
        (case can_nibble_pack data_ptr in_pos of
           Some nibble_length \<Rightarrow> TNibble nibble_length (nibble_pack data_ptr in_pos nibble_length)
         | None \<Rightarrow>
        (let p = find_pattern data_ptr in_pos in
         if pcount p \<ge> 2 \<and> plength p \<ge> 2 then TPattern p
         else
           (let run_length = run_loop data_ptr in_pos current 1 in
            if run_length \<ge> 3 then
              (case common_idx_loop current 0 of
                 Some common_idx \<Rightarrow>
                   if run_length \<le> 15 then TCommonRun run_length common_idx
                   else TRun run_length current
               | None \<Rightarrow> TRun run_length current)
            else
              (let literal_count = literal_loop data_ptr in_pos 0 in
               TLiteral literal_count (take literal_count (drop in_pos data_ptr))))))))"

partial_function (option) compress_loop :: "u8 list \<Rightarrow> nat \<Rightarrow> token list \<Rightarrow> token list option" where
  "compress_loop data_ptr in_pos toks =
     (if in_pos < length data_ptr then
        (let tok = encode_step data_ptr in_pos in
         compress_loop data_ptr (in_pos + coverage tok) (toks @ [tok]))
      else Some toks)"

declare compress_loop.simps [code]

text \<open>The tokens written for a buffer, and the bytes of \<^verbatim>\<open>output\<close> copied back.\<close>

definition compress_tokens :: "u8 list \<Rightarrow> token list option" where
  "compress_tokens data_ptr = (if data_ptr = [] then Some [] else compress_loop data_ptr 0 [])"

definition advanced_compress :: "u8 list \<Rightarrow> u8 list option" where
  "advanced_compress data_ptr = map_option (\<lambda>toks. concat (map emit toks)) (compress_tokens data_ptr)"

subsection \<open>advanced\_decompress\<close>

text \<open>
  The C decoder returns a length and has no error result. It reads
  \<^verbatim>\<open>data_ptr[in_pos]\<close> and \<^verbatim>\<open>common_values[val_idx]\<close> without a bounds check.
  In this subsection the list is the whole buffer of the caller and
  \<^verbatim>\<open>compressed_size\<close> is its length: the buffer ends with the encoded stream (the
  next subsection has a buffer that goes on after the stream). Where a read is outside
  the buffer, or outside the table, C leaves the behaviour undefined. The model stops
  there with \<open>Inl\<close> of the read that went out of bounds: \<open>ReadPastEnd\<close> for a read
  of \<^verbatim>\<open>data_ptr\<close> at an index that is not below the length of the buffer,
  \<open>ReadPastPalette\<close> for a read of \<^verbatim>\<open>common_values\<close> at an index that is not below
  8. Neither is a result the C function returns: they mark the runs on which C gives it
  no defined result.
\<close>

datatype undefined_read = ReadPastEnd | ReadPastPalette

text \<open>The packed bytes of a nibble token, unpacked: the pairs, then the odd last value.\<close>

definition nibble_unpack :: "u8 list \<Rightarrow> nat \<Rightarrow> nat \<Rightarrow> u8 list" where
  "nibble_unpack data_ptr in_pos len =
     (let pairs = len div 2 in
      concat (map (\<lambda>i. [drop_bit 4 (data_ptr ! (in_pos + i)), data_ptr ! (in_pos + i) AND 0x0F])
                  [0..<pairs])
      @ (if len mod 2 \<noteq> 0 then [drop_bit 4 (data_ptr ! (in_pos + pairs))] else []))"

text \<open>
  The bytes of the delta branch: \<^verbatim>\<open>(start + i * delta) & 0x7F\<close> for \<^verbatim>\<open>i < length\<close>.
  The C expression is computed on \<^verbatim>\<open>size_t\<close>; 128 divides the modulus, so the low
  seven bits are those of the integer.
\<close>

definition delta_bytes :: "u8 \<Rightarrow> int \<Rightarrow> nat \<Rightarrow> u8 list" where
  "delta_bytes start delta len =
     map (\<lambda>i. word_of_int ((uint start + int i * delta) AND 0x7F)) [0..<len]"

function decompress_loop :: "u8 list \<Rightarrow> nat \<Rightarrow> u8 list \<Rightarrow> undefined_read + u8 list" where
  "decompress_loop data_ptr in_pos out =
     (if in_pos < length data_ptr then
        (let control = data_ptr ! in_pos; p = in_pos + 1 in
         if control = EXT_ZERO_RUN then
           (if p < length data_ptr then
              (let cnt = unat (data_ptr ! p) in
               decompress_loop data_ptr (p + 1) (out @ replicate cnt 0))
            else Inl ReadPastEnd)
         else if control = EXT_PATTERN then
           (if p < length data_ptr then
              (let info = data_ptr ! p;
                   pattern_len = unat (drop_bit 4 info);
                   repeat_count = unat (info AND 0x0F)
               in if 0 < repeat_count \<and> 0 < pattern_len \<and> length data_ptr < p + 1 + pattern_len
                  then Inl ReadPastEnd
                  else decompress_loop data_ptr (p + 1 + pattern_len)
                         (out @ concat (replicate repeat_count
                                          (take pattern_len (drop (p + 1) data_ptr)))))
            else Inl ReadPastEnd)
         else if control = EXT_COMMON_VAL then
           (if p < length data_ptr then
              (let info = data_ptr ! p;
                   cnt = unat (drop_bit 4 info);
                   val_idx = unat (info AND 0x0F)
               in if val_idx < length common_values
                  then decompress_loop data_ptr (p + 1)
                         (out @ replicate cnt (common_values ! val_idx))
                  else Inl ReadPastPalette)
            else Inl ReadPastEnd)
         else
           (let mode = control AND MODE_MASK;
                len = unat (control AND LENGTH_MASK)
            in if mode = MODE_RLE then
                 (if p < length data_ptr then
                    decompress_loop data_ptr (p + 1) (out @ replicate len (data_ptr ! p))
                  else Inl ReadPastEnd)
               else if mode = MODE_DELTA then
                 (if p + 1 < length data_ptr then
                    (let start = data_ptr ! p;
                         delta = uint (data_ptr ! (p + 1)) - 16
                     in decompress_loop data_ptr (p + 2) (out @ delta_bytes start delta len))
                  else Inl ReadPastEnd)
               else if mode = MODE_NIBBLE then
                 (let n = len div 2 + len mod 2 in
                  if p + n \<le> length data_ptr then
                    decompress_loop data_ptr (p + n) (out @ nibble_unpack data_ptr p len)
                  else Inl ReadPastEnd)
               else
                 (if p + len \<le> length data_ptr then
                    decompress_loop data_ptr (p + len) (out @ take len (drop p data_ptr))
                  else Inl ReadPastEnd)))
      else Inr out)"
  by pat_completeness auto
termination
  by (relation "measure (\<lambda>(data_ptr, in_pos, out). length data_ptr - in_pos)") auto

declare decompress_loop.simps [simp del]

definition advanced_decompress :: "u8 list \<Rightarrow> undefined_read + u8 list" where
  "advanced_decompress data_ptr = (if data_ptr = [] then Inr [] else decompress_loop data_ptr 0 [])"

subsection \<open>advanced\_decompress on a buffer that goes on after the stream\<close>

text \<open>
  The callers of the decoder pass a buffer that is longer than the encoded stream:
  \<^verbatim>\<open>run_single_test\<close> allocates \<^verbatim>\<open>size * 2\<close> bytes, \<^verbatim>\<open>main\<close> copies the stream
  into an array of 100 bytes. \<^verbatim>\<open>compressed_size\<close> bounds the condition of the main
  loop and nothing else: no read of \<^verbatim>\<open>data_ptr\<close> is compared with it. Here the list
  is the buffer and \<^verbatim>\<open>compressed_size\<close> a parameter of its own; a read of
  \<^verbatim>\<open>data_ptr\<close> at an index between \<^verbatim>\<open>compressed_size\<close> and the length of the buffer
  returns the byte the buffer holds there, and only a read at an index that is not below
  the length of the buffer is \<open>ReadPastEnd\<close>.

  \<open>decode_step\<close> is the body of the main loop at \<^verbatim>\<open>in_pos\<close>, branch by branch as
  in the source: it returns the bytes the iteration appends to \<^verbatim>\<open>output\<close> and the
  new \<^verbatim>\<open>in_pos\<close>.
\<close>

definition decode_step :: "u8 list \<Rightarrow> nat \<Rightarrow> undefined_read + (u8 list \<times> nat)" where
  "decode_step data_ptr in_pos =
     (if in_pos < length data_ptr then
        (let control = data_ptr ! in_pos; p = in_pos + 1 in
         if control = EXT_ZERO_RUN then
           (if p < length data_ptr then
              (let cnt = unat (data_ptr ! p) in Inr (replicate cnt 0, p + 1))
            else Inl ReadPastEnd)
         else if control = EXT_PATTERN then
           (if p < length data_ptr then
              (let info = data_ptr ! p;
                   pattern_len = unat (drop_bit 4 info);
                   repeat_count = unat (info AND 0x0F)
               in if 0 < repeat_count \<and> 0 < pattern_len \<and> length data_ptr < p + 1 + pattern_len
                  then Inl ReadPastEnd
                  else Inr (concat (replicate repeat_count
                                      (take pattern_len (drop (p + 1) data_ptr))),
                            p + 1 + pattern_len))
            else Inl ReadPastEnd)
         else if control = EXT_COMMON_VAL then
           (if p < length data_ptr then
              (let info = data_ptr ! p;
                   cnt = unat (drop_bit 4 info);
                   val_idx = unat (info AND 0x0F)
               in if val_idx < length common_values
                  then Inr (replicate cnt (common_values ! val_idx), p + 1)
                  else Inl ReadPastPalette)
            else Inl ReadPastEnd)
         else
           (let mode = control AND MODE_MASK;
                len = unat (control AND LENGTH_MASK)
            in if mode = MODE_RLE then
                 (if p < length data_ptr then Inr (replicate len (data_ptr ! p), p + 1)
                  else Inl ReadPastEnd)
               else if mode = MODE_DELTA then
                 (if p + 1 < length data_ptr then
                    (let start = data_ptr ! p;
                         delta = uint (data_ptr ! (p + 1)) - 16
                     in Inr (delta_bytes start delta len, p + 2))
                  else Inl ReadPastEnd)
               else if mode = MODE_NIBBLE then
                 (let n = len div 2 + len mod 2 in
                  if p + n \<le> length data_ptr then Inr (nibble_unpack data_ptr p len, p + n)
                  else Inl ReadPastEnd)
               else
                 (if p + len \<le> length data_ptr then Inr (take len (drop p data_ptr), p + len)
                  else Inl ReadPastEnd)))
      else Inl ReadPastEnd)"

text \<open>The main loop, \<^verbatim>\<open>while (in_pos < compressed_size)\<close>.\<close>

function decompress_buffer_loop :: "u8 list \<Rightarrow> nat \<Rightarrow> nat \<Rightarrow> u8 list \<Rightarrow> undefined_read + u8 list" where
  "decompress_buffer_loop data_ptr compressed_size in_pos out =
     (if in_pos < compressed_size then
        (case decode_step data_ptr in_pos of
           Inl e \<Rightarrow> Inl e
         | Inr (bytes, next_pos) \<Rightarrow>
             decompress_buffer_loop data_ptr compressed_size next_pos (out @ bytes))
      else Inr out)"
  by pat_completeness auto
termination
  by (relation "measure (\<lambda>(data_ptr, compressed_size, in_pos, out). compressed_size - in_pos)")
     (auto simp: decode_step_def Let_def split: if_splits)

declare decompress_buffer_loop.simps [simp del]

declare decompress_buffer_loop.simps [code]

definition advanced_decompress_buffer :: "u8 list \<Rightarrow> nat \<Rightarrow> undefined_read + u8 list" where
  "advanced_decompress_buffer data_ptr compressed_size =
     (if compressed_size = 0 then Inr [] else decompress_buffer_loop data_ptr compressed_size 0 [])"

subsection \<open>The example of the test suite\<close>

text \<open>The 24 bytes \<^verbatim>\<open>original_example\<close> of \<^verbatim>\<open>run_comprehensive_tests\<close>.\<close>

definition original_example :: "u8 list" where
  "original_example =
     [0x03, 0x74, 0x04, 0x04, 0x04, 0x35, 0x35, 0x64, 0x64, 0x64, 0x64, 0x00,
      0x00, 0x00, 0x00, 0x00, 0x56, 0x45, 0x56, 0x56, 0x56, 0x09, 0x09, 0x09]"

section \<open>Definitions used in the statements and proofs\<close>

text \<open>
  What \<^verbatim>\<open>find_pattern\<close> keeps true of \<^verbatim>\<open>best\<close>; the initial \<^verbatim>\<open>best = {0}\<close>;
  what one iteration of the main loop guarantees of the token it writes at
  \<^verbatim>\<open>in_pos\<close> (the bounds of its fields, that it stays inside the buffer, and for
  the tokens of repeated bytes and of literal bytes the bytes it covers); the least
  coverage of each kind of token; and the test that a common-value token stands for the
  byte \<open>0xFF\<close>.
\<close>

definition pattern_inv :: "u8 list \<Rightarrow> nat \<Rightarrow> Pattern \<Rightarrow> bool" where
  "pattern_inv d start b \<longleftrightarrow>
     start + plength b * pcount b \<le> length d \<and> plength b \<le> 16 \<and> length (pattern b) = 16"

definition no_pattern :: Pattern where
  "no_pattern = \<lparr>pattern = replicate 16 0, plength = 0, pcount = 0\<rparr>"

fun tok_wf :: "u8 list \<Rightarrow> nat \<Rightarrow> token \<Rightarrow> bool" where
  "tok_wf d p (TZeroRun n) =
     (3 \<le> n \<and> n \<le> 255 \<and> p + n \<le> length d \<and> take n (drop p d) = replicate n 0)"
| "tok_wf d p (TDelta s dl n) = (3 \<le> n \<and> n \<le> 63 \<and> p + n \<le> length d \<and> - 15 \<le> dl \<and> dl \<le> 15)"
| "tok_wf d p (TNibble n bs) =
     (4 \<le> n \<and> n \<le> 62 \<and> p + n \<le> length d \<and> length bs = n div 2 + n mod 2)"
| "tok_wf d p (TPattern q) =
     (2 \<le> plength q \<and> plength q \<le> 16 \<and> 2 \<le> pcount q \<and> p + plength q * pcount q \<le> length d
      \<and> length (pattern q) = 16)"
| "tok_wf d p (TCommonRun n idx) =
     (3 \<le> n \<and> n \<le> 15 \<and> p + n \<le> length d \<and> idx = 5
      \<and> take n (drop p d) = replicate n 0xFF)"
| "tok_wf d p (TRun n c) =
     (3 \<le> n \<and> n \<le> 63 \<and> p + n \<le> length d \<and> take n (drop p d) = replicate n c)"
| "tok_wf d p (TLiteral n bs) = (1 \<le> n \<and> n \<le> 63 \<and> p + n \<le> length d \<and> bs = take n (drop p d))"

fun min_coverage :: "token \<Rightarrow> nat" where
  "min_coverage (TZeroRun n) = 3"
| "min_coverage (TDelta s dl n) = 3"
| "min_coverage (TNibble n bs) = 4"
| "min_coverage (TPattern q) = 4"
| "min_coverage (TCommonRun n idx) = 3"
| "min_coverage (TRun n c) = 3"
| "min_coverage (TLiteral n bs) = 1"

fun common_run_is_FF :: "token \<Rightarrow> bool" where
  "common_run_is_FF (TCommonRun n idx) = (common_values ! idx = 0xFF)"
| "common_run_is_FF t = True"

text \<open>
  A token decodes as the bytes \<open>bs\<close> when the decoder, with its cursor on the token's
  bytes anywhere in a stream, moves past them and appends \<open>bs\<close> to its output.
\<close>

definition decodes_as :: "token \<Rightarrow> u8 list \<Rightarrow> bool" where
  "decodes_as t bs \<longleftrightarrow>
     (\<forall>pre post out.
        decompress_loop (pre @ emit t @ post) (length pre) out
        = decompress_loop (pre @ emit t @ post) (length pre + length (emit t)) (out @ bs))"

text \<open>The tokens written by the branches that do no arithmetic modulo 128.\<close>

fun non_arithmetic :: "token \<Rightarrow> bool" where
  "non_arithmetic (TDelta s dl n) = False"
| "non_arithmetic (TNibble n bs) = False"
| "non_arithmetic t = True"


text \<open>
  The delta tokens whose control byte \<^verbatim>\<open>MODE_DELTA | delta_length\<close> is not the value
  of an escape: \<open>0xC0 + 32 = 0xE0\<close>, \<open>0xC0 + 48 = 0xF0\<close> and \<open>0xC0 + 50 = 0xF2\<close>
  are \<^verbatim>\<open>EXT_PATTERN\<close>, \<^verbatim>\<open>EXT_ZERO_RUN\<close> and \<^verbatim>\<open>EXT_COMMON_VAL\<close>.
\<close>

fun no_escape_collision :: "token \<Rightarrow> bool" where
  "no_escape_collision (TDelta s dl n) = (n \<noteq> 32 \<and> n \<noteq> 48 \<and> n \<noteq> 50)"
| "no_escape_collision t = True"

section \<open>Properties of the evaluators and of one iteration\<close>

lemma zero_loop_props:
  "in_pos + zc \<le> length d \<Longrightarrow>
     zc \<le> zero_loop d in_pos zc \<and> zero_loop d in_pos zc \<le> max zc 255
     \<and> in_pos + zero_loop d in_pos zc \<le> length d
     \<and> (\<forall>k. zc \<le> k \<and> k < zero_loop d in_pos zc \<longrightarrow> d ! (in_pos + k) = 0)"
proof (induction d in_pos zc rule: zero_loop.induct)
  case (1 d p z)
  show ?case
  proof (cases "p + z < length d \<and> d ! (p + z) = 0x00 \<and> z < 255")
    case True
    then have eq: "zero_loop d p z = zero_loop d p (z + 1)"
      by (subst zero_loop.simps) simp
    from True have "p + (z + 1) \<le> length d" by simp
    from "1.IH"[OF True this] have IH: "z + 1 \<le> zero_loop d p (z + 1)"
      "zero_loop d p (z + 1) \<le> max (z + 1) 255"
      "p + zero_loop d p (z + 1) \<le> length d"
      "\<And>k. z + 1 \<le> k \<Longrightarrow> k < zero_loop d p (z + 1) \<Longrightarrow> d ! (p + k) = 0"
      by auto
    have "d ! (p + k) = 0" if "z \<le> k" "k < zero_loop d p (z + 1)" for k
      using that IH(4)[of k] True by (cases "k = z") auto
    with IH(1,2,3) True show ?thesis
      unfolding eq by auto
  next
    case False
    then have eq: "zero_loop d p z = z"
      by (subst zero_loop.simps) auto
    show ?thesis unfolding eq using "1.prems" by auto
  qed
qed

lemma run_loop_props:
  "in_pos + r \<le> length d \<Longrightarrow>
     r \<le> run_loop d in_pos c r \<and> run_loop d in_pos c r \<le> max r 63
     \<and> in_pos + run_loop d in_pos c r \<le> length d
     \<and> (\<forall>k. r \<le> k \<and> k < run_loop d in_pos c r \<longrightarrow> d ! (in_pos + k) = c)"
proof (induction d in_pos c r rule: run_loop.induct)
  case (1 d p c r)
  show ?case
  proof (cases "p + r < length d \<and> d ! (p + r) = c \<and> r < 63")
    case True
    then have eq: "run_loop d p c r = run_loop d p c (r + 1)"
      by (subst run_loop.simps) simp
    from True have "p + (r + 1) \<le> length d" by simp
    from "1.IH"[OF True this] have IH: "r + 1 \<le> run_loop d p c (r + 1)"
      "run_loop d p c (r + 1) \<le> max (r + 1) 63"
      "p + run_loop d p c (r + 1) \<le> length d"
      "\<And>k. r + 1 \<le> k \<Longrightarrow> k < run_loop d p c (r + 1) \<Longrightarrow> d ! (p + k) = c"
      by auto
    have "d ! (p + k) = c" if "r \<le> k" "k < run_loop d p c (r + 1)" for k
      using that IH(4)[of k] True by (cases "k = r") auto
    with IH(1,2,3) True show ?thesis
      unfolding eq by auto
  next
    case False
    then have eq: "run_loop d p c r = r"
      by (subst run_loop.simps) auto
    show ?thesis unfolding eq using "1.prems" by auto
  qed
qed

lemma ahead_loop_ge: "a \<le> ahead_loop d p a"
proof (induction d p a rule: ahead_loop.induct)
  case (1 d p a)
  show ?case
  proof (cases "p + a < length d \<and> d ! (p + a) = d ! p")
    case True
    then have "ahead_loop d p a = ahead_loop d p (a + 1)"
      by (subst ahead_loop.simps) simp
    with "1.IH"[OF True] show ?thesis by simp
  next
    case False
    then have "ahead_loop d p a = a" by (subst ahead_loop.simps) auto
    then show ?thesis by simp
  qed
qed

lemma delta_loop_props:
  "i = start + len \<Longrightarrow> i \<le> length d \<Longrightarrow>
     len \<le> delta_loop d dl i len \<and> delta_loop d dl i len \<le> max len 63
     \<and> start + delta_loop d dl i len \<le> length d"
proof (induction d dl i len rule: delta_loop.induct)
  case (1 d dl i len)
  show ?case
  proof (cases "i < length d \<and> len < 63 \<and> uint (d ! i) = (uint (d ! (i - 1)) + dl) AND 0x7F")
    case True
    then have eq: "delta_loop d dl i len = delta_loop d dl (i + 1) (len + 1)"
      by (subst delta_loop.simps) (simp add: Let_def)
    have "len + 1 \<le> delta_loop d dl (i + 1) (len + 1) \<and>
          delta_loop d dl (i + 1) (len + 1) \<le> max (len + 1) 63 \<and>
          start + delta_loop d dl (i + 1) (len + 1) \<le> length d"
      using True "1.prems" by (intro "1.IH") (auto simp: Let_def)
    with True show ?thesis unfolding eq by auto
  next
    case False
    then have eq: "delta_loop d dl i len = len"
      by (subst delta_loop.simps) (auto simp: Let_def)
    show ?thesis unfolding eq using "1.prems" by auto
  qed
qed

lemma nibble_loop_props:
  "i = start + len \<Longrightarrow> i \<le> length d \<Longrightarrow>
     len \<le> nibble_loop d start i len \<and> nibble_loop d start i len \<le> max len 62
     \<and> start + nibble_loop d start i len \<le> length d"
proof (induction d start i len rule: nibble_loop.induct)
  case (1 d start i len)
  show ?case
  proof (cases "i < length d \<and> i < start + 62 \<and> \<not> d ! i \<ge> 16")
    case True
    then have eq: "nibble_loop d start i len = nibble_loop d start (i + 1) (len + 1)"
      by (subst nibble_loop.simps) simp
    have "len + 1 \<le> nibble_loop d start (i + 1) (len + 1) \<and>
          nibble_loop d start (i + 1) (len + 1) \<le> max (len + 1) 62 \<and>
          start + nibble_loop d start (i + 1) (len + 1) \<le> length d"
      using True "1.prems" by (intro "1.IH") auto
    with True "1.prems" show ?thesis unfolding eq by auto
  next
    case False
    then have eq: "nibble_loop d start i len = len"
      by (subst nibble_loop.simps) auto
    show ?thesis unfolding eq using "1.prems" by auto
  qed
qed

lemma literal_loop_props:
  "p \<le> length d \<Longrightarrow>
     lc \<le> literal_loop d p lc \<and> literal_loop d p lc \<le> max lc 63
     \<and> p + (literal_loop d p lc - lc) \<le> length d"
proof (induction d p lc rule: literal_loop.induct)
  case (1 d p lc)
  let ?ahead = "(if p + 1 < length d then ahead_loop d p 1 else 1)"
  show ?case
  proof (cases "p < length d \<and> lc < 63 \<and> \<not> ?ahead \<ge> 3 \<and> is_delta_sequence d p = None")
    case True
    then have eq: "literal_loop d p lc = literal_loop d (p + 1) (lc + 1)"
      by (subst literal_loop.simps) (simp add: Let_def)
    have "lc + 1 \<le> literal_loop d (p + 1) (lc + 1) \<and>
          literal_loop d (p + 1) (lc + 1) \<le> max (lc + 1) 63 \<and>
          p + 1 + (literal_loop d (p + 1) (lc + 1) - (lc + 1)) \<le> length d"
      using True by (intro "1.IH"[of ?ahead]) auto
    with True show ?thesis unfolding eq by auto
  next
    case False
    then have eq: "literal_loop d p lc = lc"
      by (subst literal_loop.simps) (auto simp: Let_def)
    show ?thesis unfolding eq using "1.prems" by auto
  qed
qed

lemma match_loop_props:
  "0 < pl \<Longrightarrow> i = start + m * pl \<Longrightarrow> i \<le> length d \<Longrightarrow>
     m \<le> match_loop d start pl i m \<and> start + match_loop d start pl i m * pl \<le> length d"
proof (induction d start pl i m rule: match_loop.induct)
  case (1 d start pl i m)
  show ?case
  proof (cases "i + pl \<le> length d \<and> take pl (drop start d) = take pl (drop i d)")
    case True
    then have eq: "match_loop d start pl i m = match_loop d start pl (i + pl) (m + 1)"
      using "1.prems" by (subst match_loop.simps) simp
    have "m + 1 \<le> match_loop d start pl (i + pl) (m + 1) \<and>
          start + match_loop d start pl (i + pl) (m + 1) * pl \<le> length d"
      using True "1.prems" by (intro "1.IH") auto
    then show ?thesis unfolding eq by auto
  next
    case False
    then have eq: "match_loop d start pl i m = m"
      by (subst match_loop.simps) auto
    show ?thesis unfolding eq using "1.prems" by auto
  qed
qed

lemma better_pattern_inv:
  assumes "pattern_inv d start b" "2 \<le> pl" "pl \<le> 16" "start + pl * 2 \<le> length d"
  shows "pattern_inv d start (better_pattern d start pl (match_loop d start pl (start + pl) 1) b)"
proof -
  have "start + match_loop d start pl (start + pl) 1 * pl \<le> length d"
    using match_loop_props[of pl "start + pl" start 1 d] assms by simp
  then show ?thesis
    using assms by (simp add: better_pattern_def pattern_inv_def Let_def mult.commute)
qed

lemma find_pattern_loop_inv:
  "pattern_inv d start b \<Longrightarrow> 2 \<le> pl \<Longrightarrow> pattern_inv d start (find_pattern_loop d start pl b)"
proof (induction d start pl b rule: find_pattern_loop.induct)
  case (1 d start pl b)
  show ?case
  proof (cases "pl \<le> 16 \<and> start + pl * 2 \<le> length d")
    case True
    have "pattern_inv d start (better_pattern d start pl (match_loop d start pl (start + pl) 1) b)"
      using better_pattern_inv "1.prems" True by simp
    then have "pattern_inv d start (find_pattern_loop d start (pl + 1)
                 (better_pattern d start pl (match_loop d start pl (start + pl) 1) b))"
      using True "1.prems" by (intro "1.IH") auto
    then show ?thesis using True by (subst find_pattern_loop.simps) simp
  next
    case False
    then show ?thesis using "1.prems" by (subst find_pattern_loop.simps) auto
  qed
qed

lemma find_pattern_inv: "start \<le> length d \<Longrightarrow> pattern_inv d start (find_pattern d start)"
  unfolding find_pattern_def
  by (rule find_pattern_loop_inv) (simp_all add: pattern_inv_def)

text \<open>The initial best is never replaced.\<close>

lemma word64_gt_minus2: "(x :: 64 word) > 0 - 2 \<Longrightarrow> x = - 1"
proof -
  assume "x > 0 - 2"
  then have "unat x > unat (0 - 2 :: 64 word)" by (simp add: word_less_nat_alt)
  moreover have "unat x < 2 ^ 64" using unsigned_less[of x, where ?'a = nat] by simp
  ultimately have "unat x = unat (18446744073709551615 :: 64 word)" by simp
  then have "x = 18446744073709551615" by (simp only: word_unat_eq_iff)
  then show ?thesis by simp
qed

lemma saved_score_not_better:
  assumes "2 \<le> m" "2 \<le> pl" "m * pl < 2 ^ 64"
  shows "\<not> saved_score m pl > saved_score 0 0"
proof
  assume "saved_score m pl > saved_score 0 0"
  then have "saved_score m pl = - 1"
    using word64_gt_minus2[of "saved_score m pl"] by (simp add: saved_score_def)
  then have "(word_of_nat (m * pl) :: 64 word) = word_of_nat (pl + 1)"
    by (simp add: saved_score_def algebra_simps)
  then have "take_bit LENGTH(64) (m * pl) = take_bit LENGTH(64) (pl + 1)"
    by (simp only: word_of_nat_eq_iff)
  then have "take_bit 64 (m * pl) = take_bit 64 (pl + 1)"
    by simp
  moreover have "pl + 1 < 2 ^ 64"
  proof -
    have "2 * pl \<le> m * pl" using assms(1) by (intro mult_le_mono1)
    then show ?thesis using assms(2,3) by linarith
  qed
  ultimately have "m * pl = pl + 1"
    using assms(3) by (simp add: take_bit_nat_eq_self)
  moreover have "pl + 2 \<le> m * pl"
  proof -
    have "2 * pl \<le> m * pl" using assms(1) by (intro mult_le_mono1)
    then show ?thesis using assms(2) by linarith
  qed
  ultimately show False by simp
qed

lemma better_pattern_none:
  assumes "2 \<le> pl" "start + pl * 2 \<le> length d" "length d < 2 ^ 64"
  shows "better_pattern d start pl (match_loop d start pl (start + pl) 1) no_pattern = no_pattern"
proof -
  let ?m = "match_loop d start pl (start + pl) 1"
  have "start + ?m * pl \<le> length d"
    using match_loop_props[of pl "start + pl" start 1 d] assms by simp
  then have "?m * pl < 2 ^ 64" using assms(3) by simp
  then have "2 \<le> ?m \<Longrightarrow> \<not> saved_score ?m pl > saved_score 0 0"
    using saved_score_not_better assms(1) by simp
  then show ?thesis
    by (auto simp: better_pattern_def no_pattern_def Let_def)
qed

lemma find_pattern_loop_none:
  "2 \<le> pl \<Longrightarrow> length d < 2 ^ 64 \<Longrightarrow> find_pattern_loop d start pl no_pattern = no_pattern"
proof (induction d start pl no_pattern rule: find_pattern_loop.induct)
  case (1 d start pl)
  show ?case
  proof (cases "pl \<le> 16 \<and> start + pl * 2 \<le> length d")
    case True
    have b: "better_pattern d start pl (match_loop d start pl (start + pl) 1) no_pattern = no_pattern"
      using better_pattern_none True "1.prems" by simp
    have "find_pattern_loop d start (pl + 1) no_pattern = no_pattern"
      using True "1.prems" b by (intro "1.hyps") auto
    then show ?thesis using True b by (subst find_pattern_loop.simps) simp
  next
    case False
    then show ?thesis by (subst find_pattern_loop.simps) auto
  qed
qed

lemma find_pattern_none: "length d < 2 ^ 64 \<Longrightarrow> find_pattern d start = no_pattern"
  using find_pattern_loop_none[of 2 d start] by (simp add: find_pattern_def no_pattern_def)

lemma is_delta_sequence_Some:
  assumes "is_delta_sequence d s = Some (dl, n)"
  shows "3 \<le> n \<and> n \<le> 63 \<and> s + n \<le> length d \<and> - 15 \<le> dl \<and> dl \<le> 15"
proof -
  from assms have len: "s + 2 \<le> length d"
    by (auto simp: is_delta_sequence_def split: if_splits)
  let ?dl = "uint (d ! (s + 1)) - uint (d ! s)"
  from assms len have n: "n = delta_loop d ?dl (s + 2) 2" and dl: "dl = ?dl"
    and ok: "3 \<le> n" "- 15 \<le> dl" "dl \<le> 15"
    by (auto simp: is_delta_sequence_def Let_def split: if_splits)
  have "delta_loop d ?dl (s + 2) 2 \<le> max 2 63 \<and> s + delta_loop d ?dl (s + 2) 2 \<le> length d"
    using delta_loop_props[of "s + 2" s 2 d ?dl] len by simp
  with n ok show ?thesis by simp
qed

lemma can_nibble_pack_Some:
  assumes "can_nibble_pack d s = Some n" "s \<le> length d"
  shows "4 \<le> n \<and> n \<le> 62 \<and> s + n \<le> length d"
proof -
  from assms have n: "n = nibble_loop d s s 0" "4 \<le> n"
    by (auto simp: can_nibble_pack_def Let_def split: if_splits)
  have "nibble_loop d s s 0 \<le> max 0 62 \<and> s + nibble_loop d s s 0 \<le> length d"
    using nibble_loop_props[of s s 0 d] assms(2) by simp
  with n show ?thesis by simp
qed

lemma length_nibble_pack: "length (nibble_pack d p n) = n div 2 + n mod 2"
  by (auto simp: nibble_pack_def Let_def)

lemma ahead_loop_short:
  assumes "run_loop d p (d ! p) 1 < 3" "p + 1 < length d"
  shows "ahead_loop d p 1 < 3"
proof (cases "d ! (p + 1) = d ! p")
  case False
  then have "ahead_loop d p 1 = 1" by (subst ahead_loop.simps) simp
  then show ?thesis by simp
next
  case True
  then have r1: "run_loop d p (d ! p) 1 = run_loop d p (d ! p) 2"
    using assms(2) by (subst run_loop.simps) (simp add: numeral_2_eq_2)
  have a1: "ahead_loop d p 1 = ahead_loop d p 2"
    using True assms(2) by (subst ahead_loop.simps) (simp add: numeral_2_eq_2)
  have stop: "\<not> (p + 2 < length d \<and> d ! (p + 2) = d ! p)"
  proof
    assume c: "p + 2 < length d \<and> d ! (p + 2) = d ! p"
    then have "run_loop d p (d ! p) 2 = run_loop d p (d ! p) 3"
      by (subst run_loop.simps) (simp add: numeral_3_eq_3 numeral_2_eq_2)
    moreover have "3 \<le> run_loop d p (d ! p) 3"
      using run_loop_props[of p 3 d "d ! p"] c by simp
    ultimately show False using assms(1) r1 by simp
  qed
  then have "ahead_loop d p 2 = 2" by (subst ahead_loop.simps) auto
  with a1 show ?thesis by simp
qed

lemma literal_loop_progress:
  assumes "p < length d" "is_delta_sequence d p = None" "run_loop d p (d ! p) 1 < 3"
  shows "1 \<le> literal_loop d p 0"
proof -
  have "\<not> 3 \<le> (if p + 1 < length d then ahead_loop d p 1 else 1)"
    using ahead_loop_short[OF assms(3)] by auto
  then have "literal_loop d p 0 = literal_loop d (p + 1) 1"
    using assms(1,2) by (subst literal_loop.simps) (simp add: Let_def)
  moreover have "1 \<le> literal_loop d (p + 1) 1"
    using literal_loop_props[of "p + 1" d 1] assms(1) by simp
  ultimately show ?thesis by simp
qed

lemma encode_step_disj:
  "(d ! p = 0 \<and> 3 \<le> zero_loop d p 1 \<and> encode_step d p = TZeroRun (zero_loop d p 1))
   \<or> (\<exists>dl n. is_delta_sequence d p = Some (dl, n) \<and> encode_step d p = TDelta (d ! p) dl n)
   \<or> (\<exists>n. can_nibble_pack d p = Some n \<and> encode_step d p = TNibble n (nibble_pack d p n))
   \<or> (2 \<le> pcount (find_pattern d p) \<and> 2 \<le> plength (find_pattern d p)
        \<and> encode_step d p = TPattern (find_pattern d p))
   \<or> (\<exists>idx. is_delta_sequence d p = None \<and> 3 \<le> run_loop d p (d ! p) 1
        \<and> run_loop d p (d ! p) 1 \<le> 15 \<and> common_idx_loop (d ! p) 0 = Some idx
        \<and> encode_step d p = TCommonRun (run_loop d p (d ! p) 1) idx)
   \<or> (is_delta_sequence d p = None \<and> 3 \<le> run_loop d p (d ! p) 1
        \<and> encode_step d p = TRun (run_loop d p (d ! p) 1) (d ! p))
   \<or> (is_delta_sequence d p = None \<and> run_loop d p (d ! p) 1 < 3
        \<and> encode_step d p = TLiteral (literal_loop d p 0) (take (literal_loop d p 0) (drop p d)))"
  unfolding encode_step_def Let_def
  by (simp split: option.splits prod.splits)

lemma encode_step_cases:
  obtains
    (zero) "d ! p = 0" "3 \<le> zero_loop d p 1" "encode_step d p = TZeroRun (zero_loop d p 1)"
  | (delta) dl n where "is_delta_sequence d p = Some (dl, n)" "encode_step d p = TDelta (d ! p) dl n"
  | (nibble) n where "can_nibble_pack d p = Some n"
      "encode_step d p = TNibble n (nibble_pack d p n)"
  | (pattern) "2 \<le> pcount (find_pattern d p)" "2 \<le> plength (find_pattern d p)"
      "encode_step d p = TPattern (find_pattern d p)"
  | (common) idx where "is_delta_sequence d p = None" "3 \<le> run_loop d p (d ! p) 1"
      "run_loop d p (d ! p) 1 \<le> 15" "common_idx_loop (d ! p) 0 = Some idx"
      "encode_step d p = TCommonRun (run_loop d p (d ! p) 1) idx"
  | (run) "is_delta_sequence d p = None" "3 \<le> run_loop d p (d ! p) 1"
      "encode_step d p = TRun (run_loop d p (d ! p) 1) (d ! p)"
  | (literal) "is_delta_sequence d p = None" "run_loop d p (d ! p) 1 < 3"
      "encode_step d p = TLiteral (literal_loop d p 0) (take (literal_loop d p 0) (drop p d))"
  using encode_step_disj[of d p] by (elim disjE exE conjE) blast+

lemma take_drop_replicate:
  "p + n \<le> length d \<Longrightarrow> (\<And>k. k < n \<Longrightarrow> d ! (p + k) = c) \<Longrightarrow> take n (drop p d) = replicate n c"
  by (auto simp: list_eq_iff_nth_eq)

lemma int_and_127: "0 \<le> x \<Longrightarrow> x < 128 \<Longrightarrow> (x::int) AND 0x7F = x"
proof -
  assume a: "0 \<le> x" "x < 128"
  have "take_bit 7 x = x" using a by (simp add: take_bit_int_eq_self)
  moreover have "(mask 7 :: int) = 0x7F" by (simp add: mask_eq_exp_minus_1)
  ultimately show ?thesis by (simp add: take_bit_eq_mask)
qed

text \<open>A run of three equal bytes below 128 is a delta sequence with delta 0.\<close>

lemma run_is_delta_sequence:
  assumes "p + 2 < length d" "d ! (p + 1) = d ! p" "d ! (p + 2) = d ! p" "d ! p < 128"
  shows "\<exists>n. is_delta_sequence d p = Some (0, n)"
proof -
  have u: "uint (d ! p) < 128" using assms(4) by (simp add: word_less_def)
  have e: "(uint (d ! p) + 0) AND 0x7F = uint (d ! p)"
    using int_and_127[of "uint (d ! p)"] u by simp
  have "delta_loop d 0 (p + 2) 2 = delta_loop d 0 (p + 3) 3"
    using assms e by (subst delta_loop.simps) (simp add: Let_def numeral_3_eq_3 numeral_2_eq_2)
  moreover have "3 \<le> delta_loop d 0 (p + 3) 3"
    using delta_loop_props[of "p + 3" p 3 d 0] assms(1) by simp
  ultimately have "3 \<le> delta_loop d 0 (p + 2) 2" by simp
  then show ?thesis using assms(1,2) by (simp add: is_delta_sequence_def Let_def)
qed

lemma common_idx_loop_Some:
  "common_idx_loop c 0 = Some idx \<Longrightarrow> idx < 8 \<and> common_values ! idx = c"
  by (simp add: common_idx_loop.simps NUM_COMMON_VALUES_def common_values_def split: if_splits)

lemma common_value_high: "idx < 8 \<Longrightarrow> \<not> common_values ! idx < 128 \<Longrightarrow> idx = 5"
proof -
  assume "idx < 8" "\<not> common_values ! idx < 128"
  moreover from \<open>idx < 8\<close> have "idx \<in> {0, 1, 2, 3, 4, 5, 6, 7}" by auto
  ultimately show ?thesis by (auto simp: common_values_def)
qed

lemma run_not_delta_high:
  assumes "is_delta_sequence d p = None" "3 \<le> run_loop d p (d ! p) 1" "p < length d"
  shows "\<not> d ! p < 128"
proof
  assume lt: "d ! p < 128"
  have r: "p + run_loop d p (d ! p) 1 \<le> length d"
    "\<And>k. 1 \<le> k \<Longrightarrow> k < run_loop d p (d ! p) 1 \<Longrightarrow> d ! (p + k) = d ! p"
    using run_loop_props[of p 1 d "d ! p"] assms(3) by auto
  have "p + 2 < length d" using r(1) assms(2) by simp
  moreover have "d ! (p + 1) = d ! p" using r(2)[of 1] assms(2) by simp
  moreover have "d ! (p + 2) = d ! p" using r(2)[of 2] assms(2) by simp
  ultimately show False using run_is_delta_sequence[of p d] lt assms(1) by auto
qed

lemma encode_step_wf:
  assumes "p < length d"
  shows "tok_wf d p (encode_step d p)"
proof (cases rule: encode_step_cases[of d p])
  case zero
  have z: "zero_loop d p 1 \<le> 255" "p + zero_loop d p 1 \<le> length d"
    "\<And>k. 1 \<le> k \<Longrightarrow> k < zero_loop d p 1 \<Longrightarrow> d ! (p + k) = 0"
    using zero_loop_props[of p 1 d] assms by auto
  have "d ! (p + k) = 0" if "k < zero_loop d p 1" for k
    using that z(3)[of k] zero(1) by (cases "k = 0") auto
  then have "take (zero_loop d p 1) (drop p d) = replicate (zero_loop d p 1) 0"
    using z(2) by (intro take_drop_replicate) auto
  with zero z show ?thesis by simp
next
  case (delta dl n)
  then show ?thesis using is_delta_sequence_Some[of d p dl n] by simp
next
  case (nibble n)
  then show ?thesis using can_nibble_pack_Some[of d p n] assms by (simp add: length_nibble_pack)
next
  case pattern
  then show ?thesis using find_pattern_inv[of p d] assms
    by (simp add: pattern_inv_def)
next
  case (common idx)
  have r: "p + run_loop d p (d ! p) 1 \<le> length d"
    "\<And>k. 1 \<le> k \<Longrightarrow> k < run_loop d p (d ! p) 1 \<Longrightarrow> d ! (p + k) = d ! p"
    using run_loop_props[of p 1 d "d ! p"] assms by auto
  have "d ! (p + k) = d ! p" if "k < run_loop d p (d ! p) 1" for k
    using that r(2)[of k] by (cases "k = 0") auto
  then have t: "take (run_loop d p (d ! p) 1) (drop p d) = replicate (run_loop d p (d ! p) 1) (d ! p)"
    using r(1) by (intro take_drop_replicate) auto
  have hi: "\<not> d ! p < 128" using run_not_delta_high common assms by simp
  have i: "idx < 8" "common_values ! idx = d ! p" using common_idx_loop_Some common(4) by auto
  then have "idx = 5" using common_value_high hi by simp
  moreover from this i have "d ! p = 0xFF" by (simp add: common_values_def)
  ultimately show ?thesis using common r(1) t by simp
next
  case run
  have r: "run_loop d p (d ! p) 1 \<le> 63" "p + run_loop d p (d ! p) 1 \<le> length d"
    "\<And>k. 1 \<le> k \<Longrightarrow> k < run_loop d p (d ! p) 1 \<Longrightarrow> d ! (p + k) = d ! p"
    using run_loop_props[of p 1 d "d ! p"] assms by auto
  have "d ! (p + k) = d ! p" if "k < run_loop d p (d ! p) 1" for k
    using that r(3)[of k] by (cases "k = 0") auto
  then have "take (run_loop d p (d ! p) 1) (drop p d) = replicate (run_loop d p (d ! p) 1) (d ! p)"
    using r(2) by (intro take_drop_replicate) auto
  with run r show ?thesis by simp
next
  case literal
  have "1 \<le> literal_loop d p 0" using literal_loop_progress literal assms by simp
  moreover have "literal_loop d p 0 \<le> 63" "p + literal_loop d p 0 \<le> length d"
    using literal_loop_props[of p d 0] assms by auto
  ultimately show ?thesis using literal by simp
qed

lemma tok_wf_coverage: "tok_wf d p t \<Longrightarrow> 1 \<le> coverage t \<and> p + coverage t \<le> length d"
proof (cases t)
  case (TPattern q)
  assume "tok_wf d p t"
  with TPattern have a: "2 \<le> plength q" "2 \<le> pcount q" "p + plength q * pcount q \<le> length d"
    by auto
  have "2 * 2 \<le> plength q * pcount q" using a(1,2) by (intro mult_le_mono)
  with a TPattern show ?thesis by simp
qed auto

text \<open>The rule of the main loop: an invariant kept by every iteration holds when it returns.\<close>

lemma compress_loop_rule:
  assumes "I in_pos toks"
    and "\<And>p a. p < length d \<Longrightarrow> I p a \<Longrightarrow> I (p + coverage (encode_step d p)) (a @ [encode_step d p])"
  shows "\<exists>p r. compress_loop d in_pos toks = Some r \<and> I p r \<and> length d \<le> p"
  using assms(1)
proof (induction "length d - in_pos" arbitrary: in_pos toks rule: less_induct)
  case less
  show ?case
  proof (cases "in_pos < length d")
    case False
    then have "compress_loop d in_pos toks = Some toks"
      by (subst compress_loop.simps) simp
    with False less.prems show ?thesis by auto
  next
    case True
    let ?t = "encode_step d in_pos"
    have eq: "compress_loop d in_pos toks = compress_loop d (in_pos + coverage ?t) (toks @ [?t])"
      using True by (subst compress_loop.simps) (simp add: Let_def)
    have "1 \<le> coverage ?t" using tok_wf_coverage[OF encode_step_wf[OF True]] by simp
    then have "length d - (in_pos + coverage ?t) < length d - in_pos" using True by simp
    from less.hyps[OF this assms(2)[OF True less.prems]] show ?thesis unfolding eq .
  qed
qed

lemma compress_tokens_rule:
  assumes "I 0 []"
    and "\<And>p a. p < length d \<Longrightarrow> I p a \<Longrightarrow> tok_wf d p (encode_step d p)
           \<Longrightarrow> I (p + coverage (encode_step d p)) (a @ [encode_step d p])"
  shows "\<exists>r. compress_tokens d = Some r \<and> I (length d) r"
proof (cases "d = []")
  case True
  then show ?thesis using assms(1) by (simp add: compress_tokens_def)
next
  case False
  have "\<exists>p r. compress_loop d 0 [] = Some r \<and> (p \<le> length d \<and> I p r) \<and> length d \<le> p"
  proof (rule compress_loop_rule[where I = "\<lambda>p a. p \<le> length d \<and> I p a"])
    show "0 \<le> length d \<and> I 0 []" using assms(1) by simp
  next
    fix p a assume p: "p < length d" and i: "p \<le> length d \<and> I p a"
    have wf: "tok_wf d p (encode_step d p)" using encode_step_wf[OF p] .
    show "p + coverage (encode_step d p) \<le> length d
          \<and> I (p + coverage (encode_step d p)) (a @ [encode_step d p])"
      using tok_wf_coverage[OF wf] assms(2)[OF p _ wf] i by simp
  qed
  then obtain p r where "compress_loop d 0 [] = Some r" "p \<le> length d" "I p r" "length d \<le> p"
    by blast
  moreover from this have "p = length d" by simp
  ultimately show ?thesis using False by (auto simp: compress_tokens_def)
qed

lemma tok_wf_min_coverage: "tok_wf d p t \<Longrightarrow> min_coverage t \<le> coverage t"
proof (cases t)
  case (TPattern q)
  assume "tok_wf d p t"
  with TPattern have a: "2 \<le> plength q" "2 \<le> pcount q" by auto
  have "2 * 2 \<le> plength q * pcount q" using a by (intro mult_le_mono)
  with TPattern show ?thesis by simp
qed auto

lemma emit_length_le: "tok_wf d p t \<Longrightarrow> length (emit t) \<le> 2 * coverage t"
proof (cases t)
  case (TPattern q)
  assume "tok_wf d p t"
  with TPattern have a: "2 \<le> plength q" "2 \<le> pcount q" "length (pattern q) = 16" "plength q \<le> 16"
    by auto
  have h: "plength q * 2 \<le> plength q * pcount q" using a(2) by (intro mult_le_mono) auto
  have e: "length (emit t) = 2 + plength q" using a TPattern by simp
  have c: "coverage t = plength q * pcount q" using TPattern by simp
  show ?thesis unfolding e c using h a(1) by linarith
qed auto

lemma tok_wf_common_run: "tok_wf d p t \<Longrightarrow> common_run_is_FF t"
  by (cases t) (auto simp: common_values_def)

lemma zero_run_claimed:
  assumes "p + 2 < length d" "d ! p = 0" "d ! (p + 1) = 0" "d ! (p + 2) = 0"
  shows "\<exists>n. encode_step d p = TZeroRun n"
proof -
  have "zero_loop d p 1 = zero_loop d p 2"
    using assms by (subst zero_loop.simps) (simp add: numeral_2_eq_2)
  also have "\<dots> = zero_loop d p 3"
    using assms by (subst zero_loop.simps) (simp add: numeral_3_eq_3 numeral_2_eq_2)
  finally have "3 \<le> zero_loop d p 1"
    using zero_loop_props[of p 3 d] assms(1) by simp
  then show ?thesis using assms(2) by (simp add: encode_step_def)
qed

lemma delta_run_claimed:
  assumes "p + 2 < length d" "d ! (p + 1) = d ! p" "d ! (p + 2) = d ! p" "d ! p < 128" "d ! p \<noteq> 0"
  shows "\<exists>n. encode_step d p = TDelta (d ! p) 0 n"
  using run_is_delta_sequence[OF assms(1-4)] assms(5) by (auto simp: encode_step_def)

section \<open>Properties of the decoder\<close>

lemma rle_control_all:
  "\<forall>n\<in>set [0..<64]. (MODE_RLE OR word_of_nat n) AND MODE_MASK = MODE_RLE
      \<and> unat ((MODE_RLE OR word_of_nat n) AND LENGTH_MASK) = n
      \<and> MODE_RLE OR word_of_nat n \<noteq> EXT_ZERO_RUN
      \<and> MODE_RLE OR word_of_nat n \<noteq> EXT_PATTERN
      \<and> MODE_RLE OR word_of_nat n \<noteq> EXT_COMMON_VAL"
  by code_simp

lemma literal_control_all:
  "\<forall>n\<in>set [0..<64]. (MODE_LITERAL OR word_of_nat n) AND MODE_MASK = MODE_LITERAL
      \<and> unat ((MODE_LITERAL OR word_of_nat n) AND LENGTH_MASK) = n
      \<and> MODE_LITERAL OR word_of_nat n \<noteq> EXT_ZERO_RUN
      \<and> MODE_LITERAL OR word_of_nat n \<noteq> EXT_PATTERN
      \<and> MODE_LITERAL OR word_of_nat n \<noteq> EXT_COMMON_VAL"
  by code_simp

lemma common_info_all:
  "\<forall>n\<in>set [0..<16]. \<forall>idx\<in>set [0..<8].
      unat (drop_bit 4 (word_of_nat (push_bit 4 n OR idx) :: u8)) = n
      \<and> unat ((word_of_nat (push_bit 4 n OR idx) :: u8) AND 0x0F) = idx"
  by code_simp

lemma decompress_done: "length d \<le> in_pos \<Longrightarrow> decompress_loop d in_pos out = Inr out"
  by (subst decompress_loop.simps) simp

lemma decompress_zero_run:
  assumes "in_pos + 1 < length d" "d ! in_pos = EXT_ZERO_RUN"
  shows "decompress_loop d in_pos out
         = decompress_loop d (in_pos + 2) (out @ replicate (unat (d ! (in_pos + 1))) 0)"
  using assms by (subst decompress_loop.simps) (simp add: Let_def)

lemma decompress_common_val:
  assumes "in_pos + 1 < length d" "d ! in_pos = EXT_COMMON_VAL"
  shows "decompress_loop d in_pos out
         = (if unat (d ! (in_pos + 1) AND 0x0F) < 8
            then decompress_loop d (in_pos + 2)
                   (out @ replicate (unat (drop_bit 4 (d ! (in_pos + 1))))
                                    (common_values ! unat (d ! (in_pos + 1) AND 0x0F)))
            else Inl ReadPastPalette)"
  using assms
  by (subst decompress_loop.simps)
     (simp add: Let_def EXT_COMMON_VAL_def EXT_ZERO_RUN_def EXT_PATTERN_def common_values_def)

lemma decompress_rle:
  assumes "in_pos + 1 < length d" "d ! in_pos \<noteq> EXT_ZERO_RUN" "d ! in_pos \<noteq> EXT_PATTERN"
    "d ! in_pos \<noteq> EXT_COMMON_VAL" "d ! in_pos AND MODE_MASK = MODE_RLE"
  shows "decompress_loop d in_pos out
         = decompress_loop d (in_pos + 2)
             (out @ replicate (unat (d ! in_pos AND LENGTH_MASK)) (d ! (in_pos + 1)))"
  using assms by (subst decompress_loop.simps) (simp add: Let_def)

lemma decompress_delta:
  assumes "in_pos + 2 < length d" "d ! in_pos \<noteq> EXT_ZERO_RUN" "d ! in_pos \<noteq> EXT_PATTERN"
    "d ! in_pos \<noteq> EXT_COMMON_VAL" "d ! in_pos AND MODE_MASK = MODE_DELTA"
  shows "decompress_loop d in_pos out
         = decompress_loop d (in_pos + 3)
             (out @ delta_bytes (d ! (in_pos + 1)) (uint (d ! (in_pos + 2)) - 16)
                      (unat (d ! in_pos AND LENGTH_MASK)))"
  using assms
  by (subst decompress_loop.simps) (simp add: Let_def MODE_DELTA_def MODE_RLE_def numeral_3_eq_3)

lemma decompress_literal:
  assumes "in_pos < length d" "d ! in_pos \<noteq> EXT_ZERO_RUN" "d ! in_pos \<noteq> EXT_PATTERN"
    "d ! in_pos \<noteq> EXT_COMMON_VAL" "d ! in_pos AND MODE_MASK = MODE_LITERAL"
    "in_pos + 1 + unat (d ! in_pos AND LENGTH_MASK) \<le> length d"
  shows "decompress_loop d in_pos out
         = decompress_loop d (in_pos + 1 + unat (d ! in_pos AND LENGTH_MASK))
             (out @ take (unat (d ! in_pos AND LENGTH_MASK)) (drop (in_pos + 1) d))"
  using assms
  by (subst decompress_loop.simps)
     (simp add: Let_def MODE_DELTA_def MODE_RLE_def MODE_LITERAL_def MODE_NIBBLE_def)

lemma decodes_zero_run:
  assumes "n \<le> 255"
  shows "decodes_as (TZeroRun n) (replicate n 0)"
proof -
  have u: "unat (word_of_nat n :: u8) = n" using assms by (simp add: unat_of_nat)
  show ?thesis
    unfolding decodes_as_def
  proof (intro allI)
    fix pre post out
    let ?d = "pre @ emit (TZeroRun n) @ post"
    have "decompress_loop ?d (length pre) out
          = decompress_loop ?d (length pre + 2) (out @ replicate (unat (?d ! (length pre + 1))) 0)"
      by (rule decompress_zero_run) (simp_all add: nth_append)
    moreover have "?d ! (length pre + 1) = word_of_nat n" by (simp add: nth_append)
    ultimately show "decompress_loop ?d (length pre) out
          = decompress_loop ?d (length pre + length (emit (TZeroRun n))) (out @ replicate n 0)"
      using u by simp
  qed
qed

lemma decodes_common_run:
  assumes "n \<le> 15" "idx < 8"
  shows "decodes_as (TCommonRun n idx) (replicate n (common_values ! idx))"
proof -
  have u: "unat (drop_bit 4 (word_of_nat (push_bit 4 n OR idx) :: u8)) = n"
    "unat ((word_of_nat (push_bit 4 n OR idx) :: u8) AND 0x0F) = idx"
    using common_info_all assms by auto
  show ?thesis
    unfolding decodes_as_def
  proof (intro allI)
    fix pre post out
    let ?d = "pre @ emit (TCommonRun n idx) @ post"
    have i: "?d ! (length pre + 1) = word_of_nat (push_bit 4 n OR idx)" by (simp add: nth_append)
    have "decompress_loop ?d (length pre) out
          = (if unat (?d ! (length pre + 1) AND 0x0F) < 8
            then decompress_loop ?d (length pre + 2)
                   (out @ replicate (unat (drop_bit 4 (?d ! (length pre + 1))))
                                    (common_values ! unat (?d ! (length pre + 1) AND 0x0F)))
            else Inl ReadPastPalette)"
      by (rule decompress_common_val) (simp_all add: nth_append)
    then show "decompress_loop ?d (length pre) out
          = decompress_loop ?d (length pre + length (emit (TCommonRun n idx)))
              (out @ replicate n (common_values ! idx))"
      unfolding i u using assms(2) by simp
  qed
qed

lemma decodes_run:
  assumes "n \<le> 63"
  shows "decodes_as (TRun n c) (replicate n c)"
proof -
  have n: "n \<in> set [0..<64]" using assms by simp
  note u = rle_control_all[rule_format, OF n]
  show ?thesis
    unfolding decodes_as_def
  proof (intro allI)
    fix pre post out
    let ?d = "pre @ emit (TRun n c) @ post"
    have c: "?d ! length pre = MODE_RLE OR word_of_nat n" by (simp add: nth_append)
    have "decompress_loop ?d (length pre) out
          = decompress_loop ?d (length pre + 2)
             (out @ replicate (unat (?d ! length pre AND LENGTH_MASK)) (?d ! (length pre + 1)))"
      by (rule decompress_rle; (subst c)?; simp add: u)
    moreover have "?d ! (length pre + 1) = c" by (simp add: nth_append)
    ultimately show "decompress_loop ?d (length pre) out
          = decompress_loop ?d (length pre + length (emit (TRun n c))) (out @ replicate n c)"
      unfolding c using u by simp
  qed
qed

lemma decodes_literal:
  assumes "n \<le> 63" "length bs = n"
  shows "decodes_as (TLiteral n bs) bs"
proof -
  have n: "n \<in> set [0..<64]" using assms by simp
  note u = literal_control_all[rule_format, OF n]
  show ?thesis
    unfolding decodes_as_def
  proof (intro allI)
    fix pre post out
    let ?d = "pre @ emit (TLiteral n bs) @ post"
    have c: "?d ! length pre = MODE_LITERAL OR word_of_nat n" by (simp add: nth_append)
    have "decompress_loop ?d (length pre) out
          = decompress_loop ?d (length pre + 1 + unat (?d ! length pre AND LENGTH_MASK))
             (out @ take (unat (?d ! length pre AND LENGTH_MASK)) (drop (length pre + 1) ?d))"
      by (rule decompress_literal; (subst c)?; simp add: u assms)
    moreover have "take n (drop (length pre + 1) ?d) = bs" using assms(2) by simp
    ultimately show "decompress_loop ?d (length pre) out
          = decompress_loop ?d (length pre + length (emit (TLiteral n bs))) (out @ bs)"
      unfolding c using u assms(2) by simp
  qed
qed

lemma decode_tokens:
  "list_all2 decodes_as toks bss \<Longrightarrow>
     decompress_loop (pre @ concat (map emit toks)) (length pre) out = Inr (out @ concat bss)"
proof (induction toks bss arbitrary: pre out rule: list_all2_induct)
  case Nil
  then show ?case by (simp add: decompress_done)
next
  case (Cons t ts bs bss)
  have "decompress_loop (pre @ emit t @ concat (map emit ts)) (length pre) out
        = decompress_loop (pre @ emit t @ concat (map emit ts)) (length pre + length (emit t)) (out @ bs)"
    using Cons.hyps(1) unfolding decodes_as_def by blast
  also have "\<dots> = decompress_loop ((pre @ emit t) @ concat (map emit ts)) (length (pre @ emit t)) (out @ bs)"
    by simp
  also have "\<dots> = Inr ((out @ bs) @ concat bss)"
    by (rule Cons.IH)
  finally show ?case by simp
qed

lemma advanced_decompress_loop: "advanced_decompress x = decompress_loop x 0 []"
  by (simp add: advanced_decompress_def decompress_done)

lemma encode_step_not_pattern:
  assumes "length d < 2 ^ 64"
  shows "encode_step d p \<noteq> TPattern q"
proof (cases rule: encode_step_cases[of d p])
  case pattern
  then show ?thesis using find_pattern_none[OF assms, of p] by (simp add: no_pattern_def)
qed auto

lemma tok_wf_decodes:
  assumes "tok_wf d p t" "non_arithmetic t" "\<And>q. t \<noteq> TPattern q"
  shows "decodes_as t (take (coverage t) (drop p d))"
proof (cases t)
  case (TZeroRun n)
  then show ?thesis using assms(1) decodes_zero_run[of n] by simp
next
  case (TCommonRun n idx)
  then show ?thesis using assms(1) decodes_common_run[of n idx] by (simp add: common_values_def)
next
  case (TRun n c)
  then show ?thesis using assms(1) decodes_run[of n c] by simp
next
  case (TLiteral n bs)
  with assms(1) have a: "n \<le> 63" "p + n \<le> length d" "bs = take n (drop p d)" by auto
  then have "length bs = n" by simp
  then show ?thesis using decodes_literal[of n bs] a TLiteral by simp
next
  case (TDelta s dl n)
  then show ?thesis using assms(2) by simp
next
  case (TNibble n bs)
  then show ?thesis using assms(2) by simp
next
  case (TPattern q)
  then show ?thesis using assms(3) by simp
qed

subsection \<open>The decoder on a buffer\<close>

lemma decode_step_advances: "decode_step data_ptr in_pos = Inr (bytes, next_pos) \<Longrightarrow> in_pos < next_pos"
  by (auto simp: decode_step_def Let_def split: if_splits)

lemma decompress_buffer_done:
  "compressed_size \<le> in_pos \<Longrightarrow> decompress_buffer_loop buf compressed_size in_pos out = Inr out"
  by (subst decompress_buffer_loop.simps) simp

lemma decompress_buffer_step:
  "in_pos < compressed_size \<Longrightarrow>
     decompress_buffer_loop buf compressed_size in_pos out
     = (case decode_step buf in_pos of
          Inl e \<Rightarrow> Inl e
        | Inr (bytes, next_pos) \<Rightarrow> decompress_buffer_loop buf compressed_size next_pos (out @ bytes))"
  by (subst decompress_buffer_loop.simps) simp

lemma decompress_loop_step:
  "in_pos < length d \<Longrightarrow>
     decompress_loop d in_pos out
     = (case decode_step d in_pos of
          Inl e \<Rightarrow> Inl e
        | Inr (bytes, next_pos) \<Rightarrow> decompress_loop d next_pos (out @ bytes))"
  unfolding decode_step_def Let_def
  by (subst decompress_loop.simps) (simp only: Let_def if_True if_False sum.case prod.case if_distrib[of "case_sum _ _"] cong: if_cong)

text \<open>On a buffer that ends with the stream the two models of the decoder agree.\<close>

lemma decompress_buffer_loop_stream:
  "decompress_buffer_loop d (length d) in_pos out = decompress_loop d in_pos out"
proof (induction "length d - in_pos" arbitrary: in_pos out rule: less_induct)
  case less
  show ?case
  proof (cases "in_pos < length d")
    case False
    then show ?thesis by (simp add: decompress_buffer_done decompress_done)
  next
    case True
    show ?thesis
    proof (cases "decode_step d in_pos")
      case (Inl e)
      then show ?thesis using True by (simp add: decompress_buffer_step decompress_loop_step)
    next
      case (Inr r)
      obtain bytes next_pos where r: "r = (bytes, next_pos)" by (cases r)
      have "in_pos < next_pos" using decode_step_advances Inr r by simp
      then have "length d - next_pos < length d - in_pos" using True by simp
      from less[OF this] show ?thesis
        using True Inr r by (simp add: decompress_buffer_step decompress_loop_step)
    qed
  qed
qed

lemma advanced_decompress_buffer_stream:
  "advanced_decompress_buffer d (length d) = advanced_decompress d"
  by (simp add: advanced_decompress_buffer_def advanced_decompress_def decompress_buffer_loop_stream)



section \<open>Delta and nibble tokens\<close>

lemma delta_control_all:
  "\<forall>n\<in>set [0..<64]. n \<noteq> 32 \<and> n \<noteq> 48 \<and> n \<noteq> 50 \<longrightarrow>
      (MODE_DELTA OR word_of_nat n) AND MODE_MASK = MODE_DELTA
      \<and> unat ((MODE_DELTA OR word_of_nat n) AND LENGTH_MASK) = n
      \<and> MODE_DELTA OR word_of_nat n \<noteq> EXT_ZERO_RUN
      \<and> MODE_DELTA OR word_of_nat n \<noteq> EXT_PATTERN
      \<and> MODE_DELTA OR word_of_nat n \<noteq> EXT_COMMON_VAL"
  by code_simp

lemma nibble_control_all:
  "\<forall>n\<in>set [0..<64]. (MODE_NIBBLE OR word_of_nat n) AND MODE_MASK = MODE_NIBBLE
      \<and> unat ((MODE_NIBBLE OR word_of_nat n) AND LENGTH_MASK) = n
      \<and> MODE_NIBBLE OR word_of_nat n \<noteq> EXT_ZERO_RUN
      \<and> MODE_NIBBLE OR word_of_nat n \<noteq> EXT_PATTERN
      \<and> MODE_NIBBLE OR word_of_nat n \<noteq> EXT_COMMON_VAL"
  by code_simp

lemma delta_byte_inverse:
  assumes "- 15 \<le> dl" "dl \<le> 15"
  shows "uint (word_of_int (dl + 16) :: u8) - 16 = dl"
proof -
  have "uint (word_of_int (dl + 16) :: u8) = take_bit LENGTH(8) (dl + 16)"
    by (rule uint_word_of_int_eq)
  also have "\<dots> = dl + 16"
    using assms by (simp add: take_bit_int_eq_self)
  finally show ?thesis by simp
qed

lemma int_and_127_mod: "(x::int) AND 0x7F = x mod 128"
proof -
  have "(mask 7 :: int) = 0x7F" by (simp add: mask_eq_exp_minus_1)
  then have "x AND 0x7F = take_bit 7 x" by (simp add: take_bit_eq_mask)
  then show ?thesis by (simp add: take_bit_eq_mod)
qed

lemma delta_loop_steps:
  "i = start + len \<Longrightarrow>
     (\<forall>k. len \<le> k \<and> k < delta_loop d dl i len
          \<longrightarrow> uint (d ! (start + k)) = (uint (d ! (start + k - 1)) + dl) AND 0x7F)"
proof (induction d dl i len rule: delta_loop.induct)
  case (1 d dl i len)
  show ?case
  proof (cases "i < length d \<and> len < 63 \<and> uint (d ! i) = (uint (d ! (i - 1)) + dl) AND 0x7F")
    case True
    then have eq: "delta_loop d dl i len = delta_loop d dl (i + 1) (len + 1)"
      by (subst delta_loop.simps) (simp add: Let_def)
    have IH: "\<forall>k. len + 1 \<le> k \<and> k < delta_loop d dl (i + 1) (len + 1)
          \<longrightarrow> uint (d ! (start + k)) = (uint (d ! (start + k - 1)) + dl) AND 0x7F"
      using True "1.prems" by (intro "1.IH") (auto simp: Let_def)
    have "uint (d ! (start + k)) = (uint (d ! (start + k - 1)) + dl) AND 0x7F"
      if "len \<le> k" "k < delta_loop d dl (i + 1) (len + 1)" for k
    proof (cases "k = len")
      case True
      then show ?thesis using \<open>i < length d \<and> len < 63 \<and> uint (d ! i) = (uint (d ! (i - 1)) + dl) AND 0x7F\<close> "1.prems"
        by simp
    next
      case False
      then show ?thesis using that IH by simp
    qed
    then show ?thesis unfolding eq by blast
  next
    case False
    then have eq: "delta_loop d dl i len = len"
      by (subst delta_loop.simps) (auto simp: Let_def)
    show ?thesis unfolding eq by simp
  qed
qed

lemma delta_sequence_bytes:
  assumes "is_delta_sequence d p = Some (dl, n)" "d ! p < 128" "d ! (p + 1) < 128"
  shows "take n (drop p d) = delta_bytes (d ! p) dl n"
proof -
  from assms(1) have len: "p + 2 \<le> length d"
    by (auto simp: is_delta_sequence_def split: if_splits)
  from assms(1) len have n: "n = delta_loop d dl (p + 2) 2" and dl: "dl = uint (d ! (p + 1)) - uint (d ! p)"
    by (auto simp: is_delta_sequence_def Let_def split: if_splits)
  have bound: "p + n \<le> length d" using is_delta_sequence_Some[OF assms(1)] by simp
  have step: "uint (d ! (p + k)) = (uint (d ! (p + k - 1)) + dl) mod 128" if "2 \<le> k" "k < n" for k
    using delta_loop_steps[of "p + 2" p 2 d dl] that n by (simp add: int_and_127_mod)
  have u0: "uint (d ! p) < 128" "uint (d ! (p + 1)) < 128"
    using assms(2,3) by (simp_all add: word_less_def)
  have val: "uint (d ! (p + k)) = (uint (d ! p) + int k * dl) mod 128" if "k < n" for k
    using that
  proof (induction k)
    case 0
    then show ?case using u0 by simp
  next
    case (Suc k)
    show ?case
    proof (cases "k = 0")
      case True
      have "uint (d ! (p + 1)) mod 128 = uint (d ! (p + 1))" using u0 by simp
      moreover have "uint (d ! (p + 1)) = uint (d ! p) + dl" using dl by simp
      ultimately have "uint (d ! (p + 1)) = (uint (d ! p) + dl) mod 128" by simp
      then show ?thesis using True by simp
    next
      case False
      then have "uint (d ! (p + Suc k)) = (uint (d ! (p + k)) + dl) mod 128"
        using step[of "Suc k"] Suc.prems by simp
      also have "\<dots> = ((uint (d ! p) + int k * dl) mod 128 + dl) mod 128"
        using Suc.IH Suc.prems by simp
      also have "\<dots> = ((uint (d ! p) + int k * dl) + dl) mod 128"
        by (rule mod_add_left_eq)
      also have "\<dots> = (uint (d ! p) + int (Suc k) * dl) mod 128"
        by (simp add: algebra_simps)
      finally show ?thesis .
    qed
  qed
  have "d ! (p + k) = word_of_int ((uint (d ! p) + int k * dl) AND 0x7F)" if "k < n" for k
  proof -
    have "word_of_int (uint (d ! (p + k))) = d ! (p + k)" by simp
    then show ?thesis using val[OF that] by (simp add: int_and_127_mod)
  qed
  then show ?thesis
    using bound by (auto simp: list_eq_iff_nth_eq delta_bytes_def)
qed

lemma decodes_delta:
  assumes "n \<le> 63" "n \<noteq> 32" "n \<noteq> 48" "n \<noteq> 50" "- 15 \<le> dl" "dl \<le> 15"
  shows "decodes_as (TDelta s dl n) (delta_bytes s dl n)"
proof -
  have n: "n \<in> set [0..<64]" using assms(1) by simp
  note u = delta_control_all[rule_format, OF n, OF conjI[OF assms(2) conjI[OF assms(3,4)]]]
  show ?thesis
    unfolding decodes_as_def
  proof (intro allI)
    fix pre post out
    let ?d = "pre @ emit (TDelta s dl n) @ post"
    have c: "?d ! length pre = MODE_DELTA OR word_of_nat n" by (simp add: nth_append)
    have "decompress_loop ?d (length pre) out
          = decompress_loop ?d (length pre + 3)
             (out @ delta_bytes (?d ! (length pre + 1)) (uint (?d ! (length pre + 2)) - 16)
                      (unat (?d ! length pre AND LENGTH_MASK)))"
      by (rule decompress_delta; (subst c)?; simp add: u)
    moreover have "?d ! (length pre + 1) = s" "?d ! (length pre + 2) = word_of_int (dl + 16)"
      by (simp_all add: nth_append)
    ultimately show "decompress_loop ?d (length pre) out
          = decompress_loop ?d (length pre + length (emit (TDelta s dl n))) (out @ delta_bytes s dl n)"
      unfolding c using u delta_byte_inverse[OF assms(5,6)] by (simp add: numeral_3_eq_3)
  qed
qed

lemma decompress_nibble:
  assumes "in_pos < length d" "d ! in_pos \<noteq> EXT_ZERO_RUN" "d ! in_pos \<noteq> EXT_PATTERN"
    "d ! in_pos \<noteq> EXT_COMMON_VAL" "d ! in_pos AND MODE_MASK = MODE_NIBBLE"
    "len = unat (d ! in_pos AND LENGTH_MASK)"
    "in_pos + 1 + (len div 2 + len mod 2) \<le> length d"
  shows "decompress_loop d in_pos out
         = decompress_loop d (in_pos + 1 + (len div 2 + len mod 2))
             (out @ nibble_unpack d (in_pos + 1) len)"
  using assms
  by (subst decompress_loop.simps)
     (simp add: Let_def MODE_DELTA_def MODE_RLE_def MODE_NIBBLE_def)

lemma nibble_loop_small:
  "i = start + len \<Longrightarrow>
     (\<forall>k. len \<le> k \<and> k < nibble_loop d start i len \<longrightarrow> d ! (start + k) < 16)"
proof (induction d start i len rule: nibble_loop.induct)
  case (1 d start i len)
  show ?case
  proof (cases "i < length d \<and> i < start + 62 \<and> \<not> d ! i \<ge> 16")
    case True
    then have eq: "nibble_loop d start i len = nibble_loop d start (i + 1) (len + 1)"
      by (subst nibble_loop.simps) simp
    have IH: "\<forall>k. len + 1 \<le> k \<and> k < nibble_loop d start (i + 1) (len + 1) \<longrightarrow> d ! (start + k) < 16"
      using True "1.prems" by (intro "1.IH") auto
    have "d ! (start + k) < 16" if "len \<le> k" "k < nibble_loop d start (i + 1) (len + 1)" for k
    proof (cases "k = len")
      case True
      then show ?thesis using \<open>i < length d \<and> i < start + 62 \<and> \<not> d ! i \<ge> 16\<close> "1.prems"
        by (simp add: not_le)
    next
      case False
      then show ?thesis using that IH by simp
    qed
    then show ?thesis unfolding eq by blast
  next
    case False
    then have eq: "nibble_loop d start i len = len"
      by (subst nibble_loop.simps) auto
    show ?thesis unfolding eq by auto
  qed
qed

lemma nibble_byte_all:
  "\<forall>a\<in>set [0..<16]. \<forall>b\<in>set [0..<16].
     drop_bit 4 (push_bit 4 (word_of_nat a :: u8) OR word_of_nat b) = word_of_nat a
     \<and> (push_bit 4 (word_of_nat a) OR word_of_nat b) AND 0x0F = (word_of_nat b :: u8)"
  by code_simp

lemma nibble_byte:
  assumes "(a :: u8) < 16" "(b :: u8) < 16"
  shows "drop_bit 4 (push_bit 4 a OR b) = a" "(push_bit 4 a OR b) AND 0x0F = b"
proof -
  have a: "unat a \<in> set [0..<16]" using assms(1) by (simp add: word_less_nat_alt)
  have b: "unat b \<in> set [0..<16]" using assms(2) by (simp add: word_less_nat_alt)
  from nibble_byte_all[rule_format, OF a b]
  show "drop_bit 4 (push_bit 4 a OR b) = a" "(push_bit 4 a OR b) AND 0x0F = b" by simp_all
qed

lemma nibble_byte_odd: "(a :: u8) < 16 \<Longrightarrow> drop_bit 4 (push_bit 4 a) = a"
  using nibble_byte(1)[of a 0] by simp

lemma pairs_take:
  "p + 2 * m \<le> length d \<Longrightarrow>
     concat (map (\<lambda>i. [d ! (p + i * 2), d ! (p + i * 2 + 1)]) [0..<m]) = take (2 * m) (drop p d)"
proof (induction m)
  case 0
  then show ?case by simp
next
  case (Suc m)
  have "take (2 * Suc m) (drop p d) = take (Suc (Suc (2 * m))) (drop p d)" by simp
  also have "\<dots> = take (2 * m) (drop p d) @ [drop p d ! (2 * m), drop p d ! (Suc (2 * m))]"
    using Suc.prems by (simp add: take_Suc_conv_app_nth)
  finally show ?case using Suc by (simp add: mult.commute add.commute)
qed

lemma nibble_unpack_pack:
  assumes "p + n \<le> length d" and small: "\<And>k. k < n \<Longrightarrow> d ! (p + k) < 16"
    and S: "\<And>i. i < n div 2 + n mod 2 \<Longrightarrow> S ! (q + i) = nibble_pack d p n ! i"
  shows "nibble_unpack S q n = take n (drop p d)"
proof -
  let ?m = "n div 2"
  have pk: "nibble_pack d p n ! i = push_bit 4 (d ! (p + i * 2)) OR d ! (p + i * 2 + 1)"
    if "i < ?m" for i
    using that by (simp add: nibble_pack_def Let_def nth_append)
  have e1: "map (\<lambda>i. [drop_bit 4 (S ! (q + i)), S ! (q + i) AND 0x0F]) [0..<?m]
        = map (\<lambda>i. [d ! (p + i * 2), d ! (p + i * 2 + 1)]) [0..<?m]"
  proof (rule map_cong[OF refl])
    fix i assume "i \<in> set [0..<?m]"
    then have i: "i < ?m" by simp
    then have "i * 2 < n" "i * 2 + 1 < n" by auto
    then have "d ! (p + i * 2) < 16" "d ! (p + i * 2 + 1) < 16"
      using small[of "i * 2"] small[of "i * 2 + 1"] by (simp_all add: add.assoc)
    moreover have "S ! (q + i) = push_bit 4 (d ! (p + i * 2)) OR d ! (p + i * 2 + 1)"
      using S[of i] pk[OF i] i by simp
    ultimately show "[drop_bit 4 (S ! (q + i)), S ! (q + i) AND 0x0F]
                     = [d ! (p + i * 2), d ! (p + i * 2 + 1)]"
      using nibble_byte by simp
  qed
  have e2: "concat (map (\<lambda>i. [d ! (p + i * 2), d ! (p + i * 2 + 1)]) [0..<?m])
                 = take (2 * ?m) (drop p d)"
    using assms(1) by (intro pairs_take) auto
  have head: "concat (map (\<lambda>i. [drop_bit 4 (S ! (q + i)), S ! (q + i) AND 0x0F]) [0..<?m])
                 = take (2 * ?m) (drop p d)"
    unfolding e1 by (rule e2)
  show ?thesis
  proof (cases "n mod 2 = 0")
    case True
    then have "2 * ?m = n" by auto
    then show ?thesis using head True by (simp add: nibble_unpack_def Let_def)
  next
    case False
    then have n: "n = Suc (2 * ?m)" by presburger
    have "nibble_pack d p n ! ?m = push_bit 4 (d ! (p + n - 1))"
      using False by (simp add: nibble_pack_def Let_def nth_append)
    moreover have "?m < n div 2 + n mod 2" using False by simp
    moreover have "p + n - 1 = p + 2 * ?m" using n by simp
    ultimately have "S ! (q + ?m) = push_bit 4 (d ! (p + 2 * ?m))"
      using S[of ?m] by simp
    moreover have "d ! (p + 2 * ?m) < 16" using small[of "2 * ?m"] n by simp
    ultimately have last: "drop_bit 4 (S ! (q + ?m)) = d ! (p + 2 * ?m)"
      using nibble_byte_odd by simp
    have "take n (drop p d) = take (Suc (2 * ?m)) (drop p d)" using n by simp
    also have "\<dots> = take (2 * ?m) (drop p d) @ [drop p d ! (2 * ?m)]"
      using assms(1) n by (intro take_Suc_conv_app_nth) simp
    also have "\<dots> = take (2 * ?m) (drop p d) @ [d ! (p + 2 * ?m)]"
      using assms(1) n by simp
    finally show ?thesis using head last False by (simp add: nibble_unpack_def Let_def)
  qed
qed

lemma decodes_nibble:
  assumes "n \<le> 62" "p + n \<le> length d" and small: "\<And>k. k < n \<Longrightarrow> d ! (p + k) < 16"
  shows "decodes_as (TNibble n (nibble_pack d p n)) (take n (drop p d))"
proof -
  have n: "n \<in> set [0..<64]" using assms(1) by simp
  note u = nibble_control_all[rule_format, OF n]
  let ?pk = "nibble_pack d p n"
  have lp: "length ?pk = n div 2 + n mod 2" by (rule length_nibble_pack)
  show ?thesis
    unfolding decodes_as_def
  proof (intro allI)
    fix pre post out
    let ?s = "pre @ emit (TNibble n ?pk) @ post"
    have c: "?s ! length pre = MODE_NIBBLE OR word_of_nat n" by (simp add: nth_append)
    have len: "n = unat (?s ! length pre AND LENGTH_MASK)" unfolding c using u by simp
    have "decompress_loop ?s (length pre) out
          = decompress_loop ?s (length pre + 1 + (n div 2 + n mod 2))
              (out @ nibble_unpack ?s (length pre + 1) n)"
      by (rule decompress_nibble[OF _ _ _ _ _ len]; (subst c)?; simp add: u lp)
    moreover have "nibble_unpack ?s (length pre + 1) n = take n (drop p d)"
    proof (rule nibble_unpack_pack[OF assms(2) small])
      fix i assume "i < n div 2 + n mod 2"
      then show "?s ! (length pre + 1 + i) = ?pk ! i"
        using lp by (simp add: nth_append)
    qed
    ultimately show "decompress_loop ?s (length pre) out
          = decompress_loop ?s (length pre + length (emit (TNibble n ?pk))) (out @ take n (drop p d))"
      using lp by simp
  qed
qed

lemma encode_step_decodes:
  assumes "p < length d" "length d < 2 ^ 64" "list_all (\<lambda>b. b < 128) d"
    "no_escape_collision (encode_step d p)"
  shows "decodes_as (encode_step d p) (take (coverage (encode_step d p)) (drop p d))"
proof -
  note wf = encode_step_wf[OF assms(1)]
  note np = encode_step_not_pattern[OF assms(2), of p]
  show ?thesis
  proof (cases rule: encode_step_cases[of d p])
    case zero
    then show ?thesis using tok_wf_decodes[OF wf] by simp
  next
    case (delta dl n)
    have b: "3 \<le> n" "n \<le> 63" "p + n \<le> length d" "- 15 \<le> dl" "dl \<le> 15"
      using is_delta_sequence_Some[OF delta(1)] by auto
    have "d ! p < 128" "d ! (p + 1) < 128"
      using assms(3) b(1,3) by (simp_all add: list_all_length)
    then have "take n (drop p d) = delta_bytes (d ! p) dl n"
      using delta_sequence_bytes[OF delta(1)] by simp
    moreover have "decodes_as (TDelta (d ! p) dl n) (delta_bytes (d ! p) dl n)"
      using assms(4) delta(2) b by (intro decodes_delta) auto
    ultimately show ?thesis using delta(2) by simp
  next
    case (nibble n)
    have b: "n \<le> 62" "p + n \<le> length d"
      using can_nibble_pack_Some[OF nibble(1)] assms(1) by auto
    have "n = nibble_loop d p p 0"
      using nibble(1) by (auto simp: can_nibble_pack_def Let_def split: if_splits)
    then have "d ! (p + k) < 16" if "k < n" for k
      using nibble_loop_small[of p p 0 d] that by simp
    then have "decodes_as (TNibble n (nibble_pack d p n)) (take n (drop p d))"
      using b by (intro decodes_nibble) auto
    then show ?thesis using nibble(2) by simp
  next
    case pattern
    then show ?thesis using np by simp
  next
    case (common idx)
    then show ?thesis using tok_wf_decodes[OF wf] by simp
  next
    case run
    then show ?thesis using tok_wf_decodes[OF wf] by simp
  next
    case literal
    then show ?thesis using tok_wf_decodes[OF wf] by simp
  qed
qed

text \<open>
  \<^bold>\<open>C1\<close> (round trip over the bytes 0..127) does not hold of the code. A buffer of
  32 bytes \<open>0x10\<close> is a delta sequence of length 32 with delta 0; its control byte
  \<^verbatim>\<open>MODE_DELTA | 32\<close> is \<open>0xE0\<close>, the value of \<^verbatim>\<open>EXT_PATTERN\<close>. The decoder
  tests the escapes first, reads the start byte \<open>0x10\<close> as the info byte of a pattern
  (unit length 1, repeat count 0), skips one byte and returns no output at all.
\<close>

theorem delta_length_32_round_trip_fails:
  "list_all (\<lambda>b. b < 128) (replicate 32 (0x10 :: u8))
   \<and> advanced_compress (replicate 32 0x10) = Some [0xE0, 0x10, 0x10]
   \<and> advanced_decompress [0xE0, 0x10, 0x10] = Inr []"
  by code_simp

text \<open>
  The extent of the defect behind \<^bold>\<open>C1\<close>: the three delta lengths are the only
  obstacle. For every buffer of bytes below 128 whose tokens hold no delta token of
  length 32, 48 or 50, decoding the encoder's output returns the buffer; the example of
  the test suite is such a buffer.
\<close>

theorem restricted_round_trip:
  assumes "length data < 2 ^ 64"
    and "list_all (\<lambda>b. b < 128) data"
    and "compress_tokens data = Some toks"
    and "list_all no_escape_collision toks"
  shows "advanced_compress data = Some (concat (map emit toks))
         \<and> advanced_decompress (concat (map emit toks)) = Inr data"
proof -
  let ?I = "\<lambda>p a. list_all no_escape_collision a
              \<longrightarrow> (\<exists>bss. list_all2 decodes_as a bss \<and> concat bss = take p data)"
  have "\<exists>r. compress_tokens data = Some r \<and> ?I (length data) r"
  proof (rule compress_tokens_rule[where I = ?I])
    show "?I 0 []" by simp
  next
    fix p a
    assume p: "p < length data" and i: "?I p a"
    let ?t = "encode_step data p"
    show "?I (p + coverage ?t) (a @ [?t])"
    proof
      assume na: "list_all no_escape_collision (a @ [?t])"
      with i obtain bss where b: "list_all2 decodes_as a bss" "concat bss = take p data" by auto
      have "decodes_as ?t (take (coverage ?t) (drop p data))"
        using encode_step_decodes[OF p assms(1,2)] na by simp
      then have "list_all2 decodes_as (a @ [?t]) (bss @ [take (coverage ?t) (drop p data)])"
        using b(1) by (intro list_all2_appendI) auto
      moreover have "concat (bss @ [take (coverage ?t) (drop p data)]) = take (p + coverage ?t) data"
        using b(2) by (simp add: take_add)
      ultimately show "\<exists>bss. list_all2 decodes_as (a @ [?t]) bss \<and> concat bss = take (p + coverage ?t) data"
        by blast
    qed
  qed
  with assms(3,4) obtain bss where b: "list_all2 decodes_as toks bss" "concat bss = data"
    by auto
  have "decompress_loop ([] @ concat (map emit toks)) (length ([] :: u8 list)) [] = Inr ([] @ concat bss)"
    using b(1) by (rule decode_tokens)
  then have "advanced_decompress (concat (map emit toks)) = Inr data"
    using b(2) by (simp add: advanced_decompress_loop)
  then show ?thesis using assms(3) by (simp add: advanced_compress_def)
qed

theorem restricted_round_trip_witness:
  "length original_example < 2 ^ 64
   \<and> list_all (\<lambda>b. b < 128) original_example
   \<and> list_all no_escape_collision (the (compress_tokens original_example))
   \<and> advanced_compress original_example
       = Some [0x02, 0x03, 0x74, 0xC3, 0x04, 0x10, 0x02, 0x35, 0x35, 0xC4, 0x64, 0x10, 0xF0, 0x05,
               0x02, 0x56, 0x45, 0xC3, 0x56, 0x10, 0xC3, 0x09, 0x10]
   \<and> advanced_decompress
         [0x02, 0x03, 0x74, 0xC3, 0x04, 0x10, 0x02, 0x35, 0x35, 0xC4, 0x64, 0x10, 0xF0, 0x05,
          0x02, 0x56, 0x45, 0xC3, 0x56, 0x10, 0xC3, 0x09, 0x10]
       = Inr original_example"
proof -
  let ?t = "[TLiteral 2 [0x03, 0x74], TDelta 0x04 0 3, TLiteral 2 [0x35, 0x35], TDelta 0x64 0 4,
      TZeroRun 5, TLiteral 2 [0x56, 0x45], TDelta 0x56 0 3, TDelta 0x09 0 3]"
  have l: "length original_example < 2 ^ 64" by (simp add: original_example_def)
  have s: "list_all (\<lambda>b. b < 128) original_example" by code_simp
  have t: "compress_tokens original_example = Some ?t" by code_simp
  have n: "list_all no_escape_collision ?t" by simp
  have e: "concat (map emit ?t) = [0x02, 0x03, 0x74, 0xC3, 0x04, 0x10, 0x02, 0x35, 0x35, 0xC4, 0x64, 0x10, 0xF0, 0x05,
               0x02, 0x56, 0x45, 0xC3, 0x56, 0x10, 0xC3, 0x09, 0x10]" by code_simp
  from restricted_round_trip[OF l s t n] l s t n show ?thesis unfolding e by simp
qed




text \<open>
  \<^bold>\<open>C3\<close> (pattern selection) does not hold of the code. For the unit
  \<open>0x56, 0x45\<close> repeated 10 times no earlier branch applies, and \<^verbatim>\<open>find_pattern\<close>
  counts 10 matches of the unit of length 2, but it returns the initial
  \<^verbatim>\<open>best = {0}\<close>: \<^verbatim>\<open>best_saved\<close> is the unsigned \<open>0 - 2\<close>, which no score exceeds
  (lemma \<open>find_pattern_none\<close> shows this for every buffer). The encoder writes one
  literal token of 20 bytes.
\<close>

theorem pattern_never_selected:
  "find_pattern (concat (replicate 10 [0x56, 0x45])) 0
     = \<lparr>pattern = replicate 16 0, plength = 0, pcount = 0\<rparr>
   \<and> compress_tokens (concat (replicate 10 [0x56, 0x45]))
     = Some [TLiteral 20 (concat (replicate 10 [0x56, 0x45]))]"
  by code_simp

text \<open>
  \<^bold>\<open>C4\<close> (token structure of the example) does not hold of the code as stated: the
  run token for four bytes \<open>0x64\<close> is not among the tokens written for the example,
  and it is not the token written at position 7, where these bytes start.
\<close>

theorem original_example_no_run_token:
  "TRun 4 0x64 \<notin> set (the (compress_tokens original_example))
   \<and> encode_step original_example 7 \<noteq> TRun 4 0x64"
  by code_simp

text \<open>
  \<^bold>\<open>C4\<close>, as the code has it. The five zero bytes (at position 11) are written as a
  zero-run token, and the four bytes \<open>0x64\<close> (at position 7) as a delta token with
  start \<open>0x64\<close>, delta 0 and length 4: the delta branch comes before the run-length
  branch and accepts a delta of 0.
\<close>

theorem original_example_tokens:
  "compress_tokens original_example = Some
     [TLiteral 2 [0x03, 0x74], TDelta 0x04 0 3, TLiteral 2 [0x35, 0x35], TDelta 0x64 0 4,
      TZeroRun 5, TLiteral 2 [0x56, 0x45], TDelta 0x56 0 3, TDelta 0x09 0 3]
   \<and> encode_step original_example 7 = TDelta 0x64 0 4
   \<and> encode_step original_example 11 = TZeroRun 5"
  by code_simp

text \<open>
  \<^bold>\<open>C5\<close> (round trip of the branches without arithmetic). For every buffer, of any
  byte values, whose tokens are all literal, run, common-value, zero-run or pattern
  tokens (no delta and no nibble token), decoding the encoder's output returns the
  buffer. The length of the buffer fits \<^verbatim>\<open>size_t\<close>.
\<close>

theorem non_arithmetic_round_trip:
  assumes "length data < 2 ^ 64"
    and "compress_tokens data = Some toks"
    and "list_all non_arithmetic toks"
  shows "advanced_compress data = Some (concat (map emit toks))
         \<and> advanced_decompress (concat (map emit toks)) = Inr data"
proof -
  let ?I = "\<lambda>p a. list_all non_arithmetic a
              \<longrightarrow> (\<exists>bss. list_all2 decodes_as a bss \<and> concat bss = take p data)"
  have "\<exists>r. compress_tokens data = Some r \<and> ?I (length data) r"
  proof (rule compress_tokens_rule[where I = ?I])
    show "?I 0 []" by simp
  next
    fix p a
    assume p: "p < length data" and i: "?I p a" and wf: "tok_wf data p (encode_step data p)"
    let ?t = "encode_step data p"
    show "?I (p + coverage ?t) (a @ [?t])"
    proof
      assume na: "list_all non_arithmetic (a @ [?t])"
      with i obtain bss where b: "list_all2 decodes_as a bss" "concat bss = take p data" by auto
      have "decodes_as ?t (take (coverage ?t) (drop p data))"
        using tok_wf_decodes[OF wf] na encode_step_not_pattern[OF assms(1)] by simp
      then have "list_all2 decodes_as (a @ [?t]) (bss @ [take (coverage ?t) (drop p data)])"
        using b(1) by (intro list_all2_appendI) auto
      moreover have "concat (bss @ [take (coverage ?t) (drop p data)]) = take (p + coverage ?t) data"
        using b(2) by (simp add: take_add)
      ultimately show "\<exists>bss. list_all2 decodes_as (a @ [?t]) bss \<and> concat bss = take (p + coverage ?t) data"
        by blast
    qed
  qed
  with assms(2,3) obtain bss where b: "list_all2 decodes_as toks bss" "concat bss = data"
    by auto
  have "decompress_loop ([] @ concat (map emit toks)) (length ([] :: u8 list)) [] = Inr ([] @ concat bss)"
    using b(1) by (rule decode_tokens)
  then have "advanced_decompress (concat (map emit toks)) = Inr data"
    using b(2) by (simp add: advanced_decompress_loop)
  then show ?thesis using assms(2) by (simp add: advanced_compress_def)
qed

theorem non_arithmetic_round_trip_witness:
  "length [0x56, 0x45, 0x00, 0x00, 0x00, 0xFF, 0xFF, 0xFF, 0x90, 0x90, 0x90, 0x90 :: u8] < 2 ^ 64
   \<and> compress_tokens [0x56, 0x45, 0x00, 0x00, 0x00, 0xFF, 0xFF, 0xFF, 0x90, 0x90, 0x90, 0x90]
       = Some [TLiteral 2 [0x56, 0x45], TZeroRun 3, TCommonRun 3 5, TRun 4 0x90]
   \<and> list_all non_arithmetic [TLiteral 2 [0x56, 0x45], TZeroRun 3, TCommonRun 3 5, TRun 4 0x90]
   \<and> advanced_decompress
         (concat (map emit [TLiteral 2 [0x56, 0x45], TZeroRun 3, TCommonRun 3 5, TRun 4 0x90]))
       = Inr [0x56, 0x45, 0x00, 0x00, 0x00, 0xFF, 0xFF, 0xFF, 0x90, 0x90, 0x90, 0x90]"
proof -
  let ?d = "[0x56, 0x45, 0x00, 0x00, 0x00, 0xFF, 0xFF, 0xFF, 0x90, 0x90, 0x90, 0x90] :: u8 list"
  let ?t = "[TLiteral 2 [0x56, 0x45], TZeroRun 3, TCommonRun 3 5, TRun 4 0x90]"
  have l: "length ?d < 2 ^ 64" by simp
  have t: "compress_tokens ?d = Some ?t" by code_simp
  have n: "list_all non_arithmetic ?t" by simp
  from non_arithmetic_round_trip[OF l t n] l t n show ?thesis by blast
qed

text \<open>
  \<^bold>\<open>C6\<close> (the reserved value 0xF1 is an error) does not hold of the code as stated:
  the stream \<open>0xF1, 0x01, 0x11\<close> decodes to the 49 bytes 1, 2, ..., 49.
\<close>

theorem reserved_sentinel_decoded:
  "advanced_decompress [0xF1, 0x01, 0x11] = Inr (map word_of_nat [1..<50])"
  by code_simp

text \<open>
  \<^bold>\<open>C6\<close>, as the code has it. \<^verbatim>\<open>EXT_INCR_SEQ\<close> is not tested by the decoder: a
  control byte \<open>0xF1\<close> is a delta control byte of length 49. The decoder reads the
  start and delta bytes after it and appends the 49 bytes of that progression.
\<close>

theorem reserved_sentinel_is_delta:
  assumes "in_pos + 2 < length d" "d ! in_pos = EXT_INCR_SEQ"
  shows "decompress_loop d in_pos out
         = decompress_loop d (in_pos + 3)
             (out @ delta_bytes (d ! (in_pos + 1)) (uint (d ! (in_pos + 2)) - 16) 49)"
proof -
  have "unat (EXT_INCR_SEQ AND LENGTH_MASK) = 49" by (simp add: EXT_INCR_SEQ_def LENGTH_MASK_def)
  moreover have "EXT_INCR_SEQ AND MODE_MASK = MODE_DELTA"
    by (simp add: EXT_INCR_SEQ_def MODE_MASK_def MODE_DELTA_def)
  moreover have "EXT_INCR_SEQ \<noteq> EXT_ZERO_RUN" "EXT_INCR_SEQ \<noteq> EXT_PATTERN" "EXT_INCR_SEQ \<noteq> EXT_COMMON_VAL"
    by (simp_all add: EXT_INCR_SEQ_def EXT_ZERO_RUN_def EXT_PATTERN_def EXT_COMMON_VAL_def)
  ultimately show ?thesis
    using decompress_delta[of in_pos d out] assms by simp
qed

theorem reserved_sentinel_is_delta_witness:
  "0 + 2 < length [0xF1, 0x01, 0x11 :: u8] \<and> [0xF1, 0x01, 0x11 :: u8] ! 0 = EXT_INCR_SEQ
   \<and> decompress_loop [0xF1, 0x01, 0x11] 0 [] = Inr (delta_bytes 0x01 1 49)"
proof -
  let ?d = "[0xF1, 0x01, 0x11] :: u8 list"
  have a: "0 + 2 < length ?d" by simp
  have b: "?d ! 0 = EXT_INCR_SEQ" by (simp add: EXT_INCR_SEQ_def)
  have "decompress_loop ?d 0 [] = decompress_loop ?d (0 + 3) ([] @ delta_bytes (?d ! (0 + 1)) (uint (?d ! (0 + 2)) - 16) 49)"
    by (rule reserved_sentinel_is_delta[OF a b])
  also have "\<dots> = Inr (delta_bytes 0x01 1 49)"
    by (simp add: decompress_done)
  finally show ?thesis using a b by blast
qed

text \<open>
  \<^bold>\<open>C7\<close> (palette index validated) does not hold of the code as stated: on the
  stream \<open>0xF2, 0x38\<close> (count 3, palette index 8) the decoder reads
  \<^verbatim>\<open>common_values[8]\<close>, outside the table of 8 entries.
\<close>

theorem palette_index_8_unchecked:
  "advanced_decompress [0xF2, 0x38] = Inl ReadPastPalette"
  by code_simp

text \<open>
  \<^bold>\<open>C7\<close>, as the code has it. After \<^verbatim>\<open>EXT_COMMON_VAL\<close> the decoder takes the
  count from the high nibble of the info byte and the palette index from the low
  nibble. For an index below 8 it appends that many copies of the palette entry; for
  an index from 8 to 15 it makes no check and reads the table out of bounds.
\<close>

theorem palette_lookup:
  assumes "in_pos + 1 < length d" "d ! in_pos = EXT_COMMON_VAL"
  shows "decompress_loop d in_pos out
         = (if unat (d ! (in_pos + 1) AND 0x0F) < 8
            then decompress_loop d (in_pos + 2)
                   (out @ replicate (unat (drop_bit 4 (d ! (in_pos + 1))))
                                    (common_values ! unat (d ! (in_pos + 1) AND 0x0F)))
            else Inl ReadPastPalette)"
  using assms by (rule decompress_common_val)

theorem palette_lookup_witness:
  "0 + 1 < length [0xF2, 0x35 :: u8] \<and> [0xF2, 0x35 :: u8] ! 0 = EXT_COMMON_VAL
   \<and> decompress_loop [0xF2, 0x35] 0 [] = Inr [0xFF, 0xFF, 0xFF]"
proof -
  let ?d = "[0xF2, 0x35] :: u8 list"
  have a: "0 + 1 < length ?d" by simp
  have b: "?d ! 0 = EXT_COMMON_VAL" by (simp add: EXT_COMMON_VAL_def)
  have "(if unat (?d ! (0 + 1) AND 0x0F) < 8
         then decompress_loop ?d (0 + 2)
                ([] @ replicate (unat (drop_bit 4 (?d ! (0 + 1))))
                                (common_values ! unat (?d ! (0 + 1) AND 0x0F)))
         else Inl ReadPastPalette) = Inr [0xFF, 0xFF, 0xFF]"
    by code_simp
  then have "decompress_loop ?d 0 [] = Inr [0xFF, 0xFF, 0xFF]"
    by (simp only: palette_lookup[OF a b, of "[]"])
  with a b show ?thesis by blast
qed

text \<open>
  \<^bold>\<open>C8\<close> (encoded-size upper bound). For every input buffer the encoder returns, and
  the length of its output is at most twice the length of the input: the writes into
  the \<^verbatim>\<open>malloc(data_size * 2)\<close> buffer stay inside it.
\<close>

theorem encoded_size_bound:
  "\<exists>out. advanced_compress data = Some out \<and> length out \<le> 2 * length data"
proof -
  have "\<exists>r. compress_tokens data = Some r \<and> length (concat (map emit r)) \<le> 2 * length data"
  proof (rule compress_tokens_rule[where I = "\<lambda>p a. length (concat (map emit a)) \<le> 2 * p"])
    show "length (concat (map emit [])) \<le> 2 * 0" by simp
  next
    fix p a
    assume "length (concat (map emit a)) \<le> 2 * p" "tok_wf data p (encode_step data p)"
    then show "length (concat (map emit (a @ [encode_step data p])))
               \<le> 2 * (p + coverage (encode_step data p))"
      using emit_length_le[of data p "encode_step data p"] by simp
  qed
  then show ?thesis by (auto simp: advanced_compress_def)
qed

text \<open>
  \<^bold>\<open>C9\<close> (the only common-value token is the one for 0xFF). For every input, every
  common-value token the encoder writes carries the palette index of \<open>0xFF\<close>; and
  wherever three equal bytes of one of the other seven palette values start, the
  iteration at that position writes a zero-run token (value \<open>0x00\<close>) or a delta token
  with delta 0 (the values below 128), so the run-length branch is not reached.
\<close>

theorem common_run_only_FF:
  "(\<exists>toks. compress_tokens data = Some toks \<and> list_all common_run_is_FF toks)
   \<and> (\<forall>p v. p + 2 < length data \<and> data ! p = v \<and> data ! (p + 1) = v \<and> data ! (p + 2) = v
           \<and> v \<in> set [0x00, 0x01, 0x02, 0x03, 0x04, 0x7F, 0x20]
         \<longrightarrow> (\<exists>n. encode_step data p = (if v = 0x00 then TZeroRun n else TDelta v 0 n)))"
proof (intro conjI allI impI)
  show "\<exists>toks. compress_tokens data = Some toks \<and> list_all common_run_is_FF toks"
  proof (rule compress_tokens_rule[where I = "\<lambda>p a. list_all common_run_is_FF a"])
    show "list_all common_run_is_FF []" by simp
  next
    fix p a
    assume "list_all common_run_is_FF a" "tok_wf data p (encode_step data p)"
    then show "list_all common_run_is_FF (a @ [encode_step data p])"
      using tok_wf_common_run by simp
  qed
next
  fix p v
  assume a: "p + 2 < length data \<and> data ! p = v \<and> data ! (p + 1) = v \<and> data ! (p + 2) = v
           \<and> v \<in> set [0x00, 0x01, 0x02, 0x03, 0x04, 0x7F, 0x20]"
  show "\<exists>n. encode_step data p = (if v = 0x00 then TZeroRun n else TDelta v 0 n)"
  proof (cases "v = 0")
    case True
    then show ?thesis using zero_run_claimed[of p data] a by simp
  next
    case False
    from a have "v < 128" by auto
    then show ?thesis using delta_run_claimed[of p data] a False by auto
  qed
qed

theorem common_run_only_FF_witness:
  "(\<exists>toks. compress_tokens [0x20, 0x20, 0x20, 0xFF, 0xFF, 0xFF] = Some toks \<and> list_all common_run_is_FF toks)
   \<and> (\<exists>n. encode_step [0x20, 0x20, 0x20, 0xFF, 0xFF, 0xFF] 0 = TDelta 0x20 0 n)"
proof -
  let ?d = "[0x20, 0x20, 0x20, 0xFF, 0xFF, 0xFF] :: u8 list"
  note h = common_run_only_FF[of ?d]
  from h have "\<exists>n. encode_step ?d 0 = (if (0x20 :: u8) = 0x00 then TZeroRun n else TDelta 0x20 0 n)"
    by (elim conjE allE[of _ 0] allE[of _ "0x20"]) simp
  then have "\<exists>n. encode_step ?d 0 = TDelta 0x20 0 n" by simp
  with h show ?thesis by blast
qed

text \<open>
  \<^bold>\<open>C10\<close> (termination). The main loop of the encoder returns on every input. Each
  iteration writes one token and advances \<^verbatim>\<open>in_pos\<close> by its coverage, which is at
  least the minimum of its kind (3 for zero runs, delta sequences and runs, 4 for nibble
  packs and patterns, 1 for literals), so at least 1; the coverages add up to the
  input length, where the loop stops.
\<close>

theorem encoder_terminates:
  "\<exists>toks. compress_tokens data = Some toks
     \<and> advanced_compress data = Some (concat (map emit toks))
     \<and> list_all (\<lambda>t. min_coverage t \<le> coverage t \<and> 1 \<le> coverage t) toks
     \<and> sum_list (map coverage toks) = length data"
proof -
  have "\<exists>r. compress_tokens data = Some r
          \<and> (list_all (\<lambda>t. min_coverage t \<le> coverage t \<and> 1 \<le> coverage t) r
             \<and> sum_list (map coverage r) = length data)"
  proof (rule compress_tokens_rule[where I = "\<lambda>p a.
           list_all (\<lambda>t. min_coverage t \<le> coverage t \<and> 1 \<le> coverage t) a
           \<and> sum_list (map coverage a) = p"])
    show "list_all (\<lambda>t. min_coverage t \<le> coverage t \<and> 1 \<le> coverage t) []
          \<and> sum_list (map coverage []) = 0" by simp
  next
    fix p a
    assume "list_all (\<lambda>t. min_coverage t \<le> coverage t \<and> 1 \<le> coverage t) a
            \<and> sum_list (map coverage a) = p"
      and "tok_wf data p (encode_step data p)"
    then show "list_all (\<lambda>t. min_coverage t \<le> coverage t \<and> 1 \<le> coverage t)
                 (a @ [encode_step data p])
               \<and> sum_list (map coverage (a @ [encode_step data p])) = p + coverage (encode_step data p)"
      using tok_wf_min_coverage[of data p "encode_step data p"]
        tok_wf_coverage[of data p "encode_step data p"] by simp
  qed
  then show ?thesis by (auto simp: advanced_compress_def)
qed

end
